theory Spec2Isabelle
  imports Main "HOL-Library.Word"
begin

section \<open>Errata: a stack of severity-tagged annotations behind a counted handle\<close>

text \<open>
  A shallow embedding of \<^verbatim>\<open>swoc/Errata.h\<close>. An \<^verbatim>\<open>Errata\<close> object is a handle holding
  one pointer \<^verbatim>\<open>_data\<close> to a reference-counted \<^verbatim>\<open>Data\<close> block (or null). Objects and
  blocks live in an explicit store, so that aliasing between handles is visible; every
  fatal error, null dereference, use of a destroyed object and missing return is a value of
  \<open>error\<close>.
\<close>

subsection \<open>Severity\<close>

text \<open>\<^verbatim>\<open>enum class Severity : uint8_t { DIAG, INFO, WARN, ERROR }\<close>\<close>

datatype Severity = DIAG | INFO | WARN | ERROR

text \<open>The underlying \<^verbatim>\<open>uint8_t\<close> value of an enumerator; \<^verbatim>\<open><\<close> on the enum compares these.\<close>

fun sev_val :: "Severity \<Rightarrow> 8 word" where
  "sev_val DIAG = 0"
| "sev_val INFO = 1"
| "sev_val WARN = 2"
| "sev_val ERROR = 3"

definition sev_less :: "Severity \<Rightarrow> Severity \<Rightarrow> bool" where
  "sev_less a b = (sev_val a < sev_val b)"

text \<open>\<^verbatim>\<open>std::max(a, b)\<close>: \<open>b\<close> when \<open>a < b\<close>, else \<open>a\<close>.\<close>

definition sev_max :: "Severity \<Rightarrow> Severity \<Rightarrow> Severity" where
  "sev_max a b = (if sev_less a b then b else a)"

definition DEFAULT_SEVERITY :: Severity where
  "DEFAULT_SEVERITY = DIAG"

definition FAILURE_SEVERITY :: Severity where
  "FAILURE_SEVERITY = WARN"

subsection \<open>The text arena\<close>

text \<open>
  Modelled from the spec: \<^verbatim>\<open>swoc::MemArena\<close> and \<^verbatim>\<open>swoc::MemSpan\<close> (\<^verbatim>\<open>swoc/MemArena.h\<close>
  is not part of the sources at hand). The spec describes a bump allocator that offers
  "allocate N bytes" and "the unused remainder of its current block". The arena is the
  storage of its current block with the number of bytes already handed out of it, and the
  earlier blocks, oldest first. A request that fits is served from the front of the
  remainder; one that does not opens a new block of at least the requested size.
\<close>

record MemSpan =
  sp_blk :: nat
  sp_off :: nat
  sp_len :: nat

record MemArena =
  active :: "char list"
  allocated :: nat
  frozen :: "char list list"
  reserve :: nat

definition new_arena :: "nat \<Rightarrow> MemArena" where
  "new_arena n = \<lparr>active = [], allocated = 0, frozen = [], reserve = n\<rparr>"

definition arena_block :: "MemArena \<Rightarrow> nat \<Rightarrow> char list" where
  "arena_block A i =
     (if i < length (frozen A) then frozen A ! i
      else if i = length (frozen A) then active A else [])"

definition arena_remaining :: "MemArena \<Rightarrow> nat" where
  "arena_remaining A = length (active A) - allocated A"

definition arena_remnant :: "MemArena \<Rightarrow> MemSpan" where
  "arena_remnant A =
     \<lparr>sp_blk = length (frozen A), sp_off = allocated A, sp_len = arena_remaining A\<rparr>"

definition arena_alloc :: "nat \<Rightarrow> MemArena \<Rightarrow> MemSpan \<times> MemArena" where
  "arena_alloc n A =
     (if n \<le> arena_remaining A
      then (\<lparr>sp_blk = length (frozen A), sp_off = allocated A, sp_len = n\<rparr>,
            A\<lparr>allocated := allocated A + n\<rparr>)
      else (\<lparr>sp_blk = Suc (length (frozen A)), sp_off = 0, sp_len = n\<rparr>,
            A\<lparr>frozen := frozen A @ [active A],
              active := replicate (max n (reserve A)) (CHR 0x00),
              allocated := n\<rparr>))"

text \<open>\<^verbatim>\<open>MemSpan::prefix(n)\<close>: the first \<open>n\<close> bytes of the span (all of it when shorter).\<close>

definition span_prefix :: "MemSpan \<Rightarrow> nat \<Rightarrow> MemSpan" where
  "span_prefix sp n = sp\<lparr>sp_len := min n (sp_len sp)\<rparr>"

text \<open>\<^verbatim>\<open>MemSpan::view()\<close> read through the arena: the bytes the span covers.\<close>

definition arena_view :: "MemArena \<Rightarrow> MemSpan \<Rightarrow> string" where
  "arena_view A sp = take (sp_len sp) (drop (sp_off sp) (arena_block A (sp_blk sp)))"

text \<open>Overwrite the bytes of a block from offset \<open>off\<close> on; bytes past the block's end are lost.\<close>

definition poke :: "nat \<Rightarrow> char list \<Rightarrow> char list \<Rightarrow> char list" where
  "poke off bs blk = take (length blk) (take off blk @ bs @ drop (off + length bs) blk)"

text \<open>Write into a span: at most \<open>sp_len\<close> bytes reach the memory.\<close>

definition arena_store :: "MemSpan \<Rightarrow> char list \<Rightarrow> MemArena \<Rightarrow> MemArena" where
  "arena_store sp bs A =
     (if sp_blk sp < length (frozen A)
      then A\<lparr>frozen := (frozen A)[sp_blk sp :=
                poke (sp_off sp) (take (sp_len sp) bs) (frozen A ! sp_blk sp)]\<rparr>
      else if sp_blk sp = length (frozen A)
      then A\<lparr>active := poke (sp_off sp) (take (sp_len sp) bs) (active A)\<rparr>
      else A)"

text \<open>
  Modelled from the spec: \<^verbatim>\<open>FixedBufferWriter\<close> (\<^verbatim>\<open>swoc/bwf_base.h\<close> is not part of the
  sources at hand), the renderer \<^verbatim>\<open>render(format, args, output_span) -> (bytes_written,
  overflowed?)\<close>. The formatting engine itself is the parameter \<open>txt\<close>, the full rendering of
  the format against the arguments. \<^verbatim>\<open>print_v\<close> writes what fits into the span;
  \<^verbatim>\<open>extent()\<close> is the full length, \<^verbatim>\<open>error()\<close> says that it did not fit.
\<close>

record FixedBufferWriter =
  bw_span :: MemSpan
  bw_extent :: nat

definition print_v :: "MemSpan \<Rightarrow> string \<Rightarrow> MemArena \<Rightarrow> FixedBufferWriter \<times> MemArena" where
  "print_v sp txt A = (\<lparr>bw_span = sp, bw_extent = length txt\<rparr>, arena_store sp txt A)"

definition bw_error :: "FixedBufferWriter \<Rightarrow> bool" where
  "bw_error bw = (sp_len (bw_span bw) < bw_extent bw)"

subsection \<open>Annotations and the shared Data block\<close>

text \<open>
  \<^verbatim>\<open>struct Annotation { Severity _severity; unsigned _level; std::string_view _text; ... }\<close>.
  The text is a view of bytes of the owning block's arena.
\<close>

record Annotation =
  a_severity :: Severity
  a_level :: nat
  a_text :: MemSpan

text \<open>\<^verbatim>\<open>Annotation::Annotation() {}\<close>: the member initialisers give default severity, level 0, empty text.\<close>

definition Annotation_default :: Annotation where
  "Annotation_default =
     \<lparr>a_severity = DEFAULT_SEVERITY, a_level = 0,
      a_text = \<lparr>sp_blk = 0, sp_off = 0, sp_len = 0\<rparr>\<rparr>"

definition NIL_NOTE :: Annotation where
  "NIL_NOTE = Annotation_default"

text \<open>
  \<^verbatim>\<open>struct Data\<close>. The intrusive list \<^verbatim>\<open>_notes\<close> is the list of its nodes, head first. The
  counter is \<^verbatim>\<open>std::atomic<int> _ref_count{0}\<close>: a 32-bit word, read as a signed number by
  \<open>sint\<close>; its arithmetic wraps around (\<^verbatim>\<open>++\<close> on \<^verbatim>\<open>INT_MAX\<close> gives \<^verbatim>\<open>INT_MIN\<close>).
\<close>

record Data =
  ref_count :: "32 word"
  d_notes :: "Annotation list"
  arena :: MemArena
  d_level :: nat
  d_severity :: Severity

definition Data_empty :: "Data \<Rightarrow> bool" where
  "Data_empty D = (d_notes D = [])"

definition Data_remnant :: "Data \<Rightarrow> MemSpan" where
  "Data_remnant D = arena_remnant (arena D)"

definition Data_alloc :: "nat \<Rightarrow> Data \<Rightarrow> MemSpan \<times> Data" where
  "Data_alloc n D = (case arena_alloc n (arena D) of (sp, A) \<Rightarrow> (sp, D\<lparr>arena := A\<rparr>))"

subsection \<open>The store: Errata objects, Data blocks, the sink list\<close>

text \<open>
  An \<^verbatim>\<open>Errata\<close> object is a slot of the store: destroyed, or alive and holding its
  \<^verbatim>\<open>_data\<close> pointer (\<open>None\<close> is \<^verbatim>\<open>nullptr\<close>). A \<^verbatim>\<open>Data*\<close> is an index into the heap, where a
  destroyed block leaves \<open>None\<close>; addresses are never used twice. Sinks are opaque callbacks,
  named by a number; calling one is recorded in the trace together with what the
  \<^verbatim>\<open>Errata const &\<close> it receives shows, and so is the destruction of a block.

  A call whose behaviour is undefined has no outcome: it is an error. \<open>Shared_write\<close> is the
  fatal error of mutating a shared block, \<open>Null_deref\<close> a dereference of \<^verbatim>\<open>nullptr\<close>,
  \<open>Bad_handle\<close> the use of an object that does not exist or of a destroyed block, and
  \<open>Missing_return\<close> control that reaches the closing brace of a function declared to return
  a value.
\<close>

datatype slot = Dead | Live "nat option"

datatype error = Shared_write | Null_deref | Bad_handle | Missing_return

type_synonym note_view = "Severity \<times> nat \<times> string"

datatype event = Sink_call nat "note_view list" | Data_destroyed nat

record state =
  heap :: "Data option list"
  handles :: "slot list"
  Sink_List :: "nat list"
  trace :: "event list"
  arena_size :: nat

definition slot_of :: "state \<Rightarrow> nat \<Rightarrow> slot" where
  "slot_of s h = (if h < length (handles s) then handles s ! h else Dead)"

definition block :: "state \<Rightarrow> nat \<Rightarrow> Data option" where
  "block s p = (if p < length (heap s) then heap s ! p else None)"

definition set_block :: "nat \<Rightarrow> Data \<Rightarrow> state \<Rightarrow> state" where
  "set_block p D s = s\<lparr>heap := (heap s)[p := Some D]\<rparr>"

definition set_data :: "nat \<Rightarrow> nat option \<Rightarrow> state \<Rightarrow> state" where
  "set_data h d s = s\<lparr>handles := (handles s)[h := Live d]\<rparr>"

text \<open>What \<^verbatim>\<open>_data\<close> of the object \<open>h\<close> points at: nothing, or a block of the heap.\<close>

definition pointee :: "state \<Rightarrow> nat \<Rightarrow> error + Data option" where
  "pointee s h =
     (case slot_of s h of
        Dead \<Rightarrow> Inl Bad_handle
      | Live None \<Rightarrow> Inr None
      | Live (Some p) \<Rightarrow>
          (case block s p of None \<Rightarrow> Inl Bad_handle | Some D \<Rightarrow> Inr (Some D)))"

text \<open>What a reader of an erratum sees: severity, level and text of each note, head first.\<close>

definition erratum_view :: "Data \<Rightarrow> note_view list" where
  "erratum_view D =
     map (\<lambda>a. (a_severity a, a_level a, arena_view (arena D) (a_text a))) (d_notes D)"

definition texts :: "Data option \<Rightarrow> string list" where
  "texts d = (case d of None \<Rightarrow> [] | Some D \<Rightarrow> map (\<lambda>a. arena_view (arena D) (a_text a)) (d_notes D))"

subsection \<open>Queries of \<^verbatim>\<open>Errata\<close> (inline in the header)\<close>

text \<open>
  The queries read \<^verbatim>\<open>_data\<close> only; they are functions of what the pointer refers to.
  \<^verbatim>\<open>return 0 == _data || 0 == _data->_notes.count() || _data->_severity < FAILURE_SEVERITY;\<close>
\<close>

definition is_ok :: "Data option \<Rightarrow> bool" where
  "is_ok d =
     (case d of
        None \<Rightarrow> True
      | Some D \<Rightarrow> length (d_notes D) = 0 \<or> sev_less (d_severity D) FAILURE_SEVERITY)"

text \<open>\<^verbatim>\<open>Errata::operator bool() const { return this->is_ok(); }\<close>\<close>

definition Errata_bool :: "Data option \<Rightarrow> bool" where
  "Errata_bool d = is_ok d"

text \<open>\<^verbatim>\<open>bool Errata::operator!() const { return !this->is_ok(); }\<close>\<close>

definition Errata_not :: "Data option \<Rightarrow> bool" where
  "Errata_not d = (\<not> is_ok d)"

text \<open>\<^verbatim>\<open>return _data == nullptr || _data->_notes.count() == 0;\<close>\<close>

definition Errata_empty :: "Data option \<Rightarrow> bool" where
  "Errata_empty d = (case d of None \<Rightarrow> True | Some D \<Rightarrow> length (d_notes D) = 0)"

text \<open>\<^verbatim>\<open>return _data ? _data->_notes.count() : 0;\<close>\<close>

definition count :: "Data option \<Rightarrow> nat" where
  "count d = (case d of None \<Rightarrow> 0 | Some D \<Rightarrow> length (d_notes D))"

text \<open>
  \<^verbatim>\<open>return *(_data->_notes.head());\<close> There is no test of \<^verbatim>\<open>_data\<close>, and the head of an
  empty list is \<^verbatim>\<open>nullptr\<close>: both dereferences are the error \<open>Null_deref\<close>.
\<close>

definition front :: "Data option \<Rightarrow> error + Annotation" where
  "front d =
     (case d of
        None \<Rightarrow> Inl Null_deref
      | Some D \<Rightarrow> (case d_notes D of [] \<Rightarrow> Inl Null_deref | a # _ \<Rightarrow> Inr a))"

subsection \<open>Construction, copy and move (inline in the header)\<close>

text \<open>\<^verbatim>\<open>Errata::Errata() {}\<close>: a new object, \<^verbatim>\<open>_data{nullptr}\<close>. The result names the new object.\<close>

definition Errata_ctor :: "state \<Rightarrow> nat \<times> state" where
  "Errata_ctor s = (length (handles s), s\<lparr>handles := handles s @ [Live None]\<rparr>)"

text \<open>\<^verbatim>\<open>if (nullptr != (_data = that._data)) { ++(_data->_ref_count); }\<close>\<close>

definition Errata_copy :: "nat \<Rightarrow> state \<Rightarrow> error + nat \<times> state" where
  "Errata_copy that s =
     (case slot_of s that of
        Dead \<Rightarrow> Inl Bad_handle
      | Live d \<Rightarrow>
          (let this = length (handles s); s1 = s\<lparr>handles := handles s @ [Live d]\<rparr>
           in case d of
                None \<Rightarrow> Inr (this, s1)
              | Some p \<Rightarrow>
                  (case block s1 p of
                     None \<Rightarrow> Inl Bad_handle
                   | Some D \<Rightarrow> Inr (this, set_block p (D\<lparr>ref_count := ref_count D + 1\<rparr>) s1))))"

text \<open>\<^verbatim>\<open>std::swap(_data, that._data)\<close> between two live objects.\<close>

definition swap_data :: "nat \<Rightarrow> nat \<Rightarrow> state \<Rightarrow> error + state" where
  "swap_data this that s =
     (case (slot_of s this, slot_of s that) of
        (Live a, Live b) \<Rightarrow> Inr (set_data that a (set_data this b s))
      | _ \<Rightarrow> Inl Bad_handle)"

text \<open>\<^verbatim>\<open>Errata::Errata(self_type &&that) { std::swap(_data, that._data); }\<close>\<close>

definition Errata_move :: "nat \<Rightarrow> state \<Rightarrow> error + nat \<times> state" where
  "Errata_move that s =
     (case slot_of s that of
        Dead \<Rightarrow> Inl Bad_handle
      | Live d \<Rightarrow>
          (let this = length (handles s); s1 = s\<lparr>handles := handles s @ [Live None]\<rparr>
           in case swap_data this that s1 of Inl e \<Rightarrow> Inl e | Inr s2 \<Rightarrow> Inr (this, s2)))"

text \<open>
  The special members as the class declares them. The copy assignment is
  \<^verbatim>\<open>self_type &operator=(self_type const &that) = delete; // no copy assignemnt.\<close>
\<close>

datatype special_member =
  Default_ctor | Copy_ctor | Move_ctor | Copy_assign | Move_assign | Dtor

datatype member_status = Provided | Deleted

fun Errata_declares :: "special_member \<Rightarrow> member_status" where
  "Errata_declares Default_ctor = Provided"
| "Errata_declares Copy_ctor = Provided"
| "Errata_declares Move_ctor = Provided"
| "Errata_declares Copy_assign = Deleted"
| "Errata_declares Move_assign = Provided"
| "Errata_declares Dtor = Provided"

text \<open>
  Overload resolution for \<^verbatim>\<open>a = b\<close>: an lvalue right-hand side selects the copy assignment,
  an rvalue the move assignment. An expression that selects a deleted function is ill-formed.
\<close>

datatype value_category = Lvalue | Rvalue

fun assignment_selects :: "value_category \<Rightarrow> special_member" where
  "assignment_selects Lvalue = Copy_assign"
| "assignment_selects Rvalue = Move_assign"

definition assignment_available :: "value_category \<Rightarrow> bool" where
  "assignment_available c = (Errata_declares (assignment_selects c) = Provided)"

subsection \<open>Members defined outside the header\<close>

text \<open>
  Modelled from the spec: \<^verbatim>\<open>Errata::release\<close> (declared in the header as "Release internal
  memory"; its body is not part of the sources at hand). "Decrements the referenced Data
  block's ref_count; if it reaches zero, and the block is non-empty, every registered sink is
  invoked with a read-only view of the about-to-be-destroyed erratum before the block's
  memory is released. If the block is empty, it is released silently. Sink invocation order
  is registration order; all registered sinks are invoked." The handle is left empty, as
  the count of a block has to equal the number of handles that still point at it.
\<close>

definition release :: "nat \<Rightarrow> state \<Rightarrow> error + state" where
  "release this s =
     (case slot_of s this of
        Dead \<Rightarrow> Inl Bad_handle
      | Live None \<Rightarrow> Inr s
      | Live (Some p) \<Rightarrow>
          (case block s p of
             None \<Rightarrow> Inl Bad_handle
           | Some D \<Rightarrow>
               (let D1 = D\<lparr>ref_count := ref_count D - 1\<rparr>
                in if ref_count D1 = 0
                   then Inr (set_data this None
                          (s\<lparr>heap := (heap s)[p := None],
                             trace := trace s
                               @ (if Data_empty D1 then []
                                  else map (\<lambda>f. Sink_call f (erratum_view D1)) (Sink_List s))
                               @ [Data_destroyed p]\<rparr>))
                   else Inr (set_data this None (set_block p D1 s)))))"

text \<open>
  Modelled from the spec: the destructor \<^verbatim>\<open>Errata::~Errata\<close>. "Destruction decrements the
  counter and, on reaching zero, finalizes the block"; afterwards the object is gone.
\<close>

definition Errata_dtor :: "nat \<Rightarrow> state \<Rightarrow> error + state" where
  "Errata_dtor this s =
     (case release this s of
        Inl e \<Rightarrow> Inl e
      | Inr s1 \<Rightarrow> Inr (s1\<lparr>handles := (handles s1)[this := Dead]\<rparr>))"

text \<open>
  Modelled from the spec: \<^verbatim>\<open>Errata::data\<close> ("Force data existence"). "The first mutating
  call on an empty Erratum handle allocates a fresh block with ref_count 1." The size the
  block's arena starts with is a constant of the missing source; it is \<open>arena_size\<close>.
\<close>

definition data :: "nat \<Rightarrow> state \<Rightarrow> error + nat \<times> state" where
  "data this s =
     (case slot_of s this of
        Dead \<Rightarrow> Inl Bad_handle
      | Live (Some p) \<Rightarrow> Inr (p, s)
      | Live None \<Rightarrow>
          (let p = length (heap s);
               D = \<lparr>ref_count = 1, d_notes = [], arena = new_arena (arena_size s),
                    d_level = 0, d_severity = DEFAULT_SEVERITY\<rparr>
           in Inr (p, set_data this (Some p) (s\<lparr>heap := heap s @ [Some D]\<rparr>))))"

text \<open>
  Modelled from the spec: \<^verbatim>\<open>Errata::writeable_data\<close>. The header says "Get a writeable data
  pointer. It is a fatal error to ask for writeable data if there are shared references";
  the spec: a block is mutated only when \<^verbatim>\<open>ref_count == 1\<close>, and mutating a shared block
  is detected as a fatal condition. An empty handle gets its block first.
\<close>

definition writeable_data :: "nat \<Rightarrow> state \<Rightarrow> error + nat \<times> state" where
  "writeable_data this s =
     (case slot_of s this of
        Dead \<Rightarrow> Inl Bad_handle
      | Live None \<Rightarrow> data this s
      | Live (Some p) \<Rightarrow>
          (case block s p of
             None \<Rightarrow> Inl Bad_handle
           | Some D \<Rightarrow> if 1 < sint (ref_count D) then Inl Shared_write else Inr (p, s)))"

text \<open>
  Modelled from the spec: \<^verbatim>\<open>Errata::alloc\<close> ("Allocate a span of memory", \<open>n\<close> bytes), from
  the arena of the writeable block.
\<close>

definition Errata_alloc :: "nat \<Rightarrow> nat \<Rightarrow> state \<Rightarrow> error + MemSpan \<times> state" where
  "Errata_alloc this n s =
     (case writeable_data this s of
        Inl e \<Rightarrow> Inl e
      | Inr (p, s1) \<Rightarrow>
          (case block s1 p of
             None \<Rightarrow> Inl Bad_handle
           | Some D \<Rightarrow> (case Data_alloc n D of (sp, D1) \<Rightarrow> Inr (sp, set_block p D1 s1))))"

text \<open>
  Modelled from the spec: \<^verbatim>\<open>Errata::note_localized\<close> ("Add a note which is already
  localized"). The note "appends a new Annotation to the front of the ordered sequence
  (most-recent-first), and updates aggregate_severity = max(aggregate_severity, severity)".
\<close>

definition push_note :: "Severity \<Rightarrow> MemSpan \<Rightarrow> Data \<Rightarrow> Data" where
  "push_note severity text D =
     D\<lparr>d_notes := \<lparr>a_severity = severity, a_level = d_level D, a_text = text\<rparr> # d_notes D,
       d_severity := sev_max (d_severity D) severity\<rparr>"

definition note_localized :: "nat \<Rightarrow> Severity \<Rightarrow> MemSpan \<Rightarrow> state \<Rightarrow> error + state" where
  "note_localized this severity text s =
     (case writeable_data this s of
        Inl e \<Rightarrow> Inl e
      | Inr (p, s1) \<Rightarrow>
          (case block s1 p of
             None \<Rightarrow> Inl Bad_handle
           | Some D \<Rightarrow> Inr (set_block p (push_note severity text D) s1)))"

text \<open>
  Modelled from the spec: \<^verbatim>\<open>Data::localize\<close> ("Duplicate src in the arena for this
  instance", returning the view of the copy).
\<close>

definition Data_localize :: "string \<Rightarrow> Data \<Rightarrow> MemSpan \<times> Data" where
  "Data_localize src D =
     (case arena_alloc (length src) (arena D) of
        (sp, A) \<Rightarrow> (sp, D\<lparr>arena := arena_store sp src A\<rparr>))"

text \<open>
  Modelled from the spec: \<^verbatim>\<open>Errata::note(Severity, std::string_view)\<close>. It "ensures a
  uniquely-owned Data block exists, copies text into the block's arena, appends a new
  Annotation to the front of the ordered sequence, and updates aggregate_severity".
\<close>

definition Errata_note :: "nat \<Rightarrow> Severity \<Rightarrow> string \<Rightarrow> state \<Rightarrow> error + state" where
  "Errata_note this severity text s =
     (case writeable_data this s of
        Inl e \<Rightarrow> Inl e
      | Inr (p, s1) \<Rightarrow>
          (case block s1 p of
             None \<Rightarrow> Inl Bad_handle
           | Some D \<Rightarrow>
               (case Data_localize text D of
                  (sp, D1) \<Rightarrow> Inr (set_block p (push_note severity sp D1) s1))))"

text \<open>
  Modelled from the spec: \<^verbatim>\<open>Errata::note(self_type const &that)\<close> ("Copy messages from that
  to this"). It "merges another Erratum's Annotations into this one, preserving relative
  order (the other's annotations become newest-first ahead of this one's existing
  annotations)", and it "must re-home each copied Annotation's text into the receiver's
  arena". Each annotation of \<open>that\<close> is noted on \<open>this\<close>, the oldest first.
\<close>

fun note_each :: "nat \<Rightarrow> (Severity \<times> string) list \<Rightarrow> state \<Rightarrow> error + state" where
  "note_each this [] s = Inr s"
| "note_each this (m # ms) s =
     (case Errata_note this (fst m) (snd m) s of
        Inl e \<Rightarrow> Inl e
      | Inr s1 \<Rightarrow> note_each this ms s1)"

definition Errata_note_copy :: "nat \<Rightarrow> nat \<Rightarrow> state \<Rightarrow> error + state" where
  "Errata_note_copy this that s =
     (case (slot_of s this, pointee s that) of
        (Dead, _) \<Rightarrow> Inl Bad_handle
      | (_, Inl e) \<Rightarrow> Inl e
      | (_, Inr None) \<Rightarrow> Inr s
      | (_, Inr (Some D)) \<Rightarrow>
          note_each this
            (rev (map (\<lambda>a. (a_severity a, arena_view (arena D) (a_text a))) (d_notes D))) s)"

text \<open>
  Modelled from the spec: \<^verbatim>\<open>Errata::clear\<close>. The header says "Remove all messages. This is
  also used to prevent logging"; the spec: it "releases the reference to any Data block
  (decrementing its count, finalizing if it reaches zero) and resets the handle to the empty
  state. This is also the explicit mechanism to suppress sink dispatch."
\<close>

definition Errata_clear :: "nat \<Rightarrow> state \<Rightarrow> error + state" where
  "Errata_clear this s =
     (case slot_of s this of
        Dead \<Rightarrow> Inl Bad_handle
      | Live None \<Rightarrow> Inr s
      | Live (Some p) \<Rightarrow>
          (case block s p of
             None \<Rightarrow> Inl Bad_handle
           | Some D \<Rightarrow> release this (set_block p (D\<lparr>d_notes := []\<rparr>) s)))"

text \<open>
  Modelled from the spec: \<^verbatim>\<open>Errata::register_sink\<close>, on the "process-wide, append-only list
  of callback handles".
\<close>

definition register_sink :: "nat \<Rightarrow> state \<Rightarrow> state" where
  "register_sink f s = s\<lparr>Sink_List := Sink_List s @ [f]\<rparr>"

text \<open>
  Modelled from the spec: \<^verbatim>\<open>Errata::severity\<close> "returns aggregate_severity (or the default
  if empty)".
\<close>

definition severity :: "Data option \<Rightarrow> Severity" where
  "severity d = (case d of None \<Rightarrow> DEFAULT_SEVERITY | Some D \<Rightarrow> d_severity D)"

subsection \<open>Assignment and notes (inline in the header)\<close>

text \<open>
  \<^verbatim>\<open>if (this != &that) { this->release(); std::swap(_data, that._data); } return *this;\<close>
\<close>

definition Errata_move_assign :: "nat \<Rightarrow> nat \<Rightarrow> state \<Rightarrow> error + state" where
  "Errata_move_assign this that s =
     (if this \<noteq> that
      then (case release this s of
              Inl e \<Rightarrow> Inl e
            | Inr s1 \<Rightarrow> swap_data this that s1)
      else (case slot_of s this of Dead \<Rightarrow> Inl Bad_handle | Live d \<Rightarrow> Inr s))"

text \<open>\<^verbatim>\<open>this->note(that); that.clear(); return *this;\<close>\<close>

definition Errata_note_move :: "nat \<Rightarrow> nat \<Rightarrow> state \<Rightarrow> error + state" where
  "Errata_note_move this that s =
     (case Errata_note_copy this that s of
        Inl e \<Rightarrow> Inl e
      | Inr s1 \<Rightarrow> Errata_clear that s1)"

text \<open>
  \<^verbatim>\<open>note_v\<close>. The formatting engine is the parameter \<open>render\<close>: the full text of \<open>fmt\<close>
  against \<open>args\<close>.
  \<^verbatim>\<open>
  Data *data = this->writeable_data();
  auto span  = data->remnant();
  FixedBufferWriter bw{span};
  if (!bw.print_v(fmt, args).error()) {
    span = span.prefix(bw.extent());
    data->alloc(bw.extent()); // require the part of the remnant actually used.
  } else {
    // Not enough space, get a big enough chunk and do it again.
    span = this->alloc(bw.extent());
    FixedBufferWriter{span}.print_v(fmt, args);
  }
  this->note_localized(severity, span.view());
  return *this;
  \<close>
\<close>

definition note_v ::
  "(string \<Rightarrow> 'a \<Rightarrow> string) \<Rightarrow> nat \<Rightarrow> Severity \<Rightarrow> string \<Rightarrow> 'a \<Rightarrow> state \<Rightarrow> error + state" where
  "note_v render this sev fmt args s =
     (case writeable_data this s of
        Inl e \<Rightarrow> Inl e
      | Inr (p, s1) \<Rightarrow>
          (case block s1 p of
             None \<Rightarrow> Inl Bad_handle
           | Some D \<Rightarrow>
               (let span = Data_remnant D
                in case print_v span (render fmt args) (arena D) of
                     (bw, A1) \<Rightarrow>
                       if \<not> bw_error bw
                       then (case Data_alloc (bw_extent bw) (D\<lparr>arena := A1\<rparr>) of
                               (used, D2) \<Rightarrow>
                                 note_localized this sev (span_prefix span (bw_extent bw))
                                   (set_block p D2 s1))
                       else (case Errata_alloc this (bw_extent bw)
                                    (set_block p (D\<lparr>arena := A1\<rparr>) s1) of
                               Inl e \<Rightarrow> Inl e
                             | Inr (span2, s2) \<Rightarrow>
                                 (case block s2 p of
                                    None \<Rightarrow> Inl Bad_handle
                                  | Some D3 \<Rightarrow>
                                      (case print_v span2 (render fmt args) (arena D3) of
                                         (bw2, A4) \<Rightarrow>
                                           note_localized this sev span2
                                             (set_block p (D3\<lparr>arena := A4\<rparr>) s2)))))))"











subsection \<open>The result wrapper \<^verbatim>\<open>Rv<R>\<close>\<close>

text \<open>
  \<^verbatim>\<open>result_type _r; Errata _errata;\<close> The member \<^verbatim>\<open>_r\<close> has no initialiser of its own. A
  member that a constructor does not mention is default-initialised: for a class type that
  runs its default constructor, for a scalar such as \<^verbatim>\<open>int\<close> it does nothing and the value
  is indeterminate. The cell of \<^verbatim>\<open>_r\<close> holds a value or is indeterminate; the \<^verbatim>\<open>Errata\<close>
  member is an object of the store.
\<close>

datatype 'r cell = Indeterminate | Value 'r

record 'r Rv =
  Rv_r :: "'r cell"
  Rv_errata :: nat

text \<open>Default-initialisation of an \<^verbatim>\<open>int\<close> member: no initialisation is performed.\<close>

definition default_init_int :: "32 word cell" where
  "default_init_int = Indeterminate"

text \<open>
  \<^verbatim>\<open>template <typename R> Rv<R>::Rv(Errata &&errata) : _errata{std::move(errata)} {}\<close>
  with \<open>dflt\<close> what default-initialisation of an \<open>R\<close> leaves in \<^verbatim>\<open>_r\<close>.
\<close>

definition Rv_from_errata :: "'r cell \<Rightarrow> nat \<Rightarrow> state \<Rightarrow> error + 'r Rv \<times> state" where
  "Rv_from_errata dflt errata s =
     (case Errata_move errata s of
        Inl e \<Rightarrow> Inl e
      | Inr (h, s1) \<Rightarrow> Inr (\<lparr>Rv_r = dflt, Rv_errata = h\<rparr>, s1))"

definition Rv_int_from_errata :: "nat \<Rightarrow> state \<Rightarrow> error + (32 word) Rv \<times> state" where
  "Rv_int_from_errata errata s = Rv_from_errata default_init_int errata s"

text \<open>\<^verbatim>\<open>Rv<R>::result() const { return _r; }\<close>\<close>

definition Rv_result :: "'r Rv \<Rightarrow> 'r cell" where
  "Rv_result rv = Rv_r rv"

text \<open>\<^verbatim>\<open>Rv<R>::is_ok() const { return _errata.is_ok(); }\<close>\<close>

definition Rv_is_ok :: "'r Rv \<Rightarrow> state \<Rightarrow> error + bool" where
  "Rv_is_ok rv s = (case pointee s (Rv_errata rv) of Inl e \<Rightarrow> Inl e | Inr d \<Rightarrow> Inr (is_ok d))"

text \<open>
  \<^verbatim>\<open>template <typename R> inline auto Rv<R>::clear() -> self_type & { errata().clear(); }\<close>
  The body is one statement, and control then reaches the closing brace of a function whose
  return type is \<^verbatim>\<open>self_type &\<close>: there is no \<^verbatim>\<open>return *this;\<close>. Flowing off the end of a
  function that returns a value is undefined behaviour, at the call and whether or not the
  caller uses the reference; so the call has no outcome, neither a reference nor a store. A
  result would be the wrapper the reference denotes and the store.
\<close>

definition Rv_clear :: "'r Rv \<Rightarrow> state \<Rightarrow> error + 'r Rv \<times> state" where
  "Rv_clear rv s =
     (case Errata_clear (Rv_errata rv) s of
        Inl e \<Rightarrow> Inl e
      | Inr s1 \<Rightarrow> Inl Missing_return)"

subsection \<open>Programs over the store and the invariant of the counters\<close>

text \<open>
  One constructor for each operation a client can apply to \<^verbatim>\<open>Errata\<close> objects; a program is a
  list of them, run from left to right until the first failure. The formatting engine of a
  formatted note is opaque, so \<open>Note_v\<close> carries the text it renders.
\<close>

datatype op =
    Ctor
  | Copy nat
  | Move nat
  | Move_assign nat nat
  | Dtor nat
  | Clear nat
  | Note nat Severity string
  | Note_v nat Severity string
  | Note_copy nat nat
  | Note_move nat nat
  | Register nat

fun step :: "op \<Rightarrow> state \<Rightarrow> error + state" where
  "step Ctor s = Inr (snd (Errata_ctor s))"
| "step (Copy that) s = map_sum id snd (Errata_copy that s)"
| "step (Move that) s = map_sum id snd (Errata_move that s)"
| "step (Move_assign this that) s = Errata_move_assign this that s"
| "step (Dtor this) s = Errata_dtor this s"
| "step (Clear this) s = Errata_clear this s"
| "step (Note this sev txt) s = Errata_note this sev txt s"
| "step (Note_v this sev txt) s = note_v (\<lambda>fmt args. fmt) this sev txt () s"
| "step (Note_copy this that) s = Errata_note_copy this that s"
| "step (Note_move this that) s = Errata_note_move this that s"
| "step (Register f) s = Inr (register_sink f s)"

fun run :: "op list \<Rightarrow> state \<Rightarrow> error + state" where
  "run [] s = Inr s"
| "run (c # cs) s = (case step c s of Inl e \<Rightarrow> Inl e | Inr s1 \<Rightarrow> run cs s1)"

text \<open>The store of a process that has not touched an \<^verbatim>\<open>Errata\<close> yet.\<close>

definition empty_store :: "nat \<Rightarrow> state" where
  "empty_store n = \<lparr>heap = [], handles = [], Sink_List = [], trace = [], arena_size = n\<rparr>"

text \<open>The number of live \<^verbatim>\<open>Errata\<close> objects whose \<^verbatim>\<open>_data\<close> is the block at \<open>p\<close>.\<close>

definition handle_count :: "state \<Rightarrow> nat \<Rightarrow> nat" where
  "handle_count s p = count_list (handles s) (Live (Some p))"

text \<open>The addresses of the blocks destroyed so far, in the order of their destruction.\<close>

fun destroyed :: "event list \<Rightarrow> nat list" where
  "destroyed [] = []"
| "destroyed (Data_destroyed p # es) = p # destroyed es"
| "destroyed (Sink_call f v # es) = destroyed es"

text \<open>The sinks called so far, in the order of the calls.\<close>

fun sink_calls :: "event list \<Rightarrow> (nat \<times> note_view list) list" where
  "sink_calls [] = []"
| "sink_calls (Sink_call f v # es) = (f, v) # sink_calls es"
| "sink_calls (Data_destroyed p # es) = sink_calls es"

text \<open>Every block of the heap counts the handles that point at it, and at least one does.\<close>

definition counts_ok :: "state \<Rightarrow> bool" where
  "counts_ok s =
     list_all (\<lambda>p. case block s p of
                      None \<Rightarrow> True
                    | Some D \<Rightarrow> sint (ref_count D) = int (handle_count s p)
                                \<and> 1 \<le> sint (ref_count D))
       [0 ..< length (heap s)]"

text \<open>No live handle points at a destroyed block or outside the heap.\<close>

definition no_dangling :: "state \<Rightarrow> bool" where
  "no_dangling s =
     list_all (\<lambda>sl. case sl of
                       Dead \<Rightarrow> True
                     | Live None \<Rightarrow> True
                     | Live (Some p) \<Rightarrow> block s p \<noteq> None)
       (handles s)"

text \<open>No block is destroyed twice, and a destroyed block is no longer in the heap.\<close>

definition finalized_once :: "state \<Rightarrow> bool" where
  "finalized_once s =
     (distinct (destroyed (trace s))
      \<and> list_all (\<lambda>p. p < length (heap s) \<and> block s p = None) (destroyed (trace s)))"

definition Inv :: "state \<Rightarrow> bool" where
  "Inv s = (counts_ok s \<and> no_dangling s \<and> finalized_once s)"

text \<open>
  The invariants of the payload. The spec states that the aggregate severity is the maximum
  over the annotations (the default when there is none) and that every text lies in the
  allocated part of the block's own arena. What every operation keeps is the second and a
  weaker form of the first: the aggregate severity is not below the maximum (\<^verbatim>\<open>clear\<close> on a
  shared block removes the messages and leaves the severity as it was).
\<close>

definition max_severity :: "Annotation list \<Rightarrow> Severity" where
  "max_severity ns = foldr (\<lambda>a m. sev_max m (a_severity a)) ns DEFAULT_SEVERITY"

definition span_ok :: "MemArena \<Rightarrow> MemSpan \<Rightarrow> bool" where
  "span_ok A sp =
     (sp_blk sp < length (frozen A)
      \<or> (sp_blk sp = length (frozen A) \<and> sp_off sp + sp_len sp \<le> allocated A))"

definition texts_in_arena :: "Data \<Rightarrow> bool" where
  "texts_in_arena D = list_all (\<lambda>a. span_ok (arena D) (a_text a)) (d_notes D)"

definition severity_covers :: "Data \<Rightarrow> bool" where
  "severity_covers D = (\<not> sev_less (d_severity D) (max_severity (d_notes D)))"

definition Data_ok :: "Data \<Rightarrow> bool" where
  "Data_ok D = (texts_in_arena D \<and> severity_covers D)"

definition payload_ok :: "state \<Rightarrow> bool" where
  "payload_ok s = list_all (\<lambda>b. case b of None \<Rightarrow> True | Some D \<Rightarrow> Data_ok D) (heap s)"

text \<open>
  The rendering strategy in the words of the spec, on the arena alone, to compare
  \<open>note_v\<close> with: if the text fits the remainder of the current block it is rendered
  "directly into the unused remainder", and then "only the bytes consumed" are committed;
  otherwise the length is measured by the failed attempt, "exactly that many bytes" are
  allocated fresh, and the text is rendered "again into the new region". The result is the
  span of the text and the arena.
\<close>

definition spec_render_into :: "string \<Rightarrow> MemArena \<Rightarrow> MemSpan \<times> MemArena" where
  "spec_render_into txt A =
     (if length txt \<le> arena_remaining A
      then (\<lparr>sp_blk = length (frozen A), sp_off = allocated A, sp_len = length txt\<rparr>,
            (arena_store (arena_remnant A) txt A)\<lparr>allocated := allocated A + length txt\<rparr>)
      else (case arena_alloc (length txt) (arena_store (arena_remnant A) txt A) of
              (sp, A2) \<Rightarrow> (sp, arena_store sp txt A2)))"

text \<open>
  The contract of a mutating call: the handle is alive and either empty or the only owner of
  its block, whose texts lie in its own arena. Two handles are aliased when they point at
  the same block.
\<close>

definition owns_uniquely :: "state \<Rightarrow> nat \<Rightarrow> bool" where
  "owns_uniquely s h =
     (case slot_of s h of
        Dead \<Rightarrow> False
      | Live None \<Rightarrow> True
      | Live (Some p) \<Rightarrow>
          (case block s p of
             None \<Rightarrow> False
           | Some D \<Rightarrow> ref_count D = 1 \<and> texts_in_arena D))"

definition aliased :: "state \<Rightarrow> nat \<Rightarrow> nat \<Rightarrow> bool" where
  "aliased s a b =
     (case slot_of s a of
        Live (Some p) \<Rightarrow> slot_of s b = Live (Some p)
      | _ \<Rightarrow> False)"

subsection \<open>Example stores\<close>

text \<open>
  One block with the single note \<open>bad\<close> of severity \<^verbatim>\<open>ERROR\<close>; a store where object 0 is its
  only handle and two sinks are registered; a store where objects 0 and 1 share it; a store
  where object 1 owns a second block with the single note \<open>ok\<close> of severity \<^verbatim>\<open>INFO\<close>.
\<close>

definition note_bad :: Annotation where
  "note_bad = \<lparr>a_severity = ERROR, a_level = 0, a_text = \<lparr>sp_blk = 1, sp_off = 0, sp_len = 3\<rparr>\<rparr>"

definition block_bad :: Data where
  "block_bad =
     \<lparr>ref_count = 1, d_notes = [note_bad],
      arena = \<lparr>active = ''bad'' @ [CHR 0x00], allocated = 3, frozen = [[]], reserve = 4\<rparr>,
      d_level = 0, d_severity = ERROR\<rparr>"

definition store_bad :: state where
  "store_bad =
     \<lparr>heap = [Some block_bad], handles = [Live (Some 0)], Sink_List = [7, 9], trace = [],
      arena_size = 4\<rparr>"

definition store_shared :: state where
  "store_shared =
     \<lparr>heap = [Some (block_bad\<lparr>ref_count := 2\<rparr>)], handles = [Live (Some 0), Live (Some 0)],
      Sink_List = [7, 9], trace = [], arena_size = 4\<rparr>"

definition block_low :: Data where
  "block_low =
     \<lparr>ref_count = 1,
      d_notes = [\<lparr>a_severity = INFO, a_level = 0,
                  a_text = \<lparr>sp_blk = 1, sp_off = 0, sp_len = 2\<rparr>\<rparr>],
      arena = \<lparr>active = ''ok'' @ [CHR 0x00, CHR 0x00], allocated = 2, frozen = [[]],
               reserve = 4\<rparr>,
      d_level = 0, d_severity = INFO\<rparr>"

definition store_pair :: state where
  "store_pair =
     \<lparr>heap = [Some block_bad, Some block_low], handles = [Live (Some 0), Live (Some 1)],
      Sink_List = [7, 9], trace = [], arena_size = 4\<rparr>"



text \<open>
  The test case "Errata copy" of \<^verbatim>\<open>test_Errata.cc\<close>: \<^verbatim>\<open>Noteworthy\<close> notes one message on
  \<^verbatim>\<open>notes\<close> (object 0); \<^verbatim>\<open>cycle\<close> notes a second one and returns a copy of its argument
  (object 1), which is move-assigned to \<^verbatim>\<open>notes\<close> and destroyed; then a default-constructed
  \<^verbatim>\<open>erratum\<close> (object 2) is cleared.
\<close>

definition test_Errata_copy :: "op list" where
  "test_Errata_copy =
     [Ctor, Note_v 0 INFO ''Evil Dave Rulz.'',
      Note_v 0 INFO ''Note well, young one!'', Copy 0, Move_assign 0 1, Dtor 1,
      Ctor, Clear 2]"

section \<open>Properties\<close>

subsection \<open>The counter as a signed 32-bit number\<close>

lemma sint_eq_1: "(sint (w :: 32 word) = 1) = (w = 1)"
proof
  assume "sint w = 1"
  then have "sint w = sint (1 :: 32 word)" by simp
  then show "w = 1" by (rule signed_word_eqI)
qed simp

lemma sint_succ: "sint (w :: 32 word) < 2147483647 \<Longrightarrow> sint (w + 1) = sint w + 1"
  using sint_range_size [of w]
  by (subst sint_word_ariths) (simp add: signed_take_bit_int_eq_self_iff word_size)

lemma sint_pred: "- 2147483648 < sint (w :: 32 word) \<Longrightarrow> sint (w - 1) = sint w - 1"
  using sint_range_size [of w]
  by (subst sint_word_ariths) (simp add: signed_take_bit_int_eq_self_iff word_size)

subsection \<open>Reading and writing the store\<close>

lemma slot_of_set_data [simp]:
  "slot_of (set_data h d s) k = (if k = h \<and> h < length (handles s) then Live d else slot_of s k)"
  by (simp add: slot_of_def set_data_def)

lemma slot_of_set_block [simp]: "slot_of (set_block p D s) k = slot_of s k"
  by (simp add: slot_of_def set_block_def)

lemma block_set_data [simp]: "block (set_data h d s) p = block s p"
  by (simp add: block_def set_data_def)

lemma block_set_block [simp]:
  "block (set_block p D s) q = (if q = p \<and> p < length (heap s) then Some D else block s q)"
  by (simp add: block_def set_block_def)

lemma block_Some_less: "block s p = Some D \<Longrightarrow> p < length (heap s)"
  by (simp add: block_def split: if_splits)

lemma slot_Live_less: "slot_of s h = Live d \<Longrightarrow> h < length (handles s)"
  by (simp add: slot_of_def split: if_splits)

lemma release_slot: "release h s = Inr s' \<Longrightarrow> slot_of s' h = Live None"
  by (auto simp: release_def Let_def slot_Live_less split: slot.splits option.splits if_splits)

subsection \<open>Status queries\<close>

text \<open>
  C1. For every handle, \<^verbatim>\<open>is_ok()\<close> holds exactly when the handle is empty (no Data block),
  or its block has no annotation, or the aggregate severity of the block is strictly below
  \<^verbatim>\<open>WARN\<close>, that is \<^verbatim>\<open>DIAG\<close> or \<^verbatim>\<open>INFO\<close>. The conversion to \<^verbatim>\<open>bool\<close> gives the same
  answer and \<^verbatim>\<open>operator!\<close> its negation.
\<close>

theorem is_ok_iff:
  "is_ok d = (d = None \<or> (\<exists>D. d = Some D \<and>
       (length (d_notes D) = 0 \<or> d_severity D = DIAG \<or> d_severity D = INFO)))
   \<and> is_ok d = (d = None \<or> count d = 0 \<or> sev_val (severity d) < sev_val WARN)
   \<and> Errata_bool d = is_ok d
   \<and> Errata_not d = (\<not> is_ok d)"
proof -
  have below: "sev_less v FAILURE_SEVERITY = (v = DIAG \<or> v = INFO)" for v
    by (cases v) (simp_all add: sev_less_def FAILURE_SEVERITY_def)
  have below': "(sev_val v < 2) = (v = DIAG \<or> v = INFO)" for v
    by (cases v) simp_all
  show ?thesis
    by (cases d) (auto simp: is_ok_def Errata_bool_def Errata_not_def count_def severity_def
        below below')
qed

theorem is_ok_iff_witness:
  "is_ok None \<and> \<not> is_ok (Some block_bad) \<and> Errata_not (Some block_bad)
   \<and> is_ok (Some (block_bad\<lparr>d_severity := INFO\<rparr>))
   \<and> is_ok (Some (block_bad\<lparr>d_notes := []\<rparr>))"
  using is_ok_iff [of None] is_ok_iff [of "Some block_bad"]
    is_ok_iff [of "Some (block_bad\<lparr>d_severity := INFO\<rparr>)"]
    is_ok_iff [of "Some (block_bad\<lparr>d_notes := []\<rparr>)"]
  by (simp add: block_bad_def)

subsection \<open>The top annotation\<close>

text \<open>
  C10. On an empty handle (default-constructed or cleared, so \<^verbatim>\<open>_data\<close> is null)
  \<^verbatim>\<open>front()\<close> dereferences a null pointer; it does not return \<^verbatim>\<open>NIL_NOTE\<close>. It yields
  an annotation exactly when the erratum holds at least one.
\<close>

theorem front_null_deref:
  "front None = Inl Null_deref
   \<and> front None \<noteq> Inr NIL_NOTE
   \<and> pointee (snd (Errata_ctor s)) (fst (Errata_ctor s)) = Inr None
   \<and> (Errata_clear h s = Inr s' \<longrightarrow> pointee s' h = Inr None)
   \<and> ((\<exists>a. front d = Inr a) = (1 \<le> count d))
   \<and> ((front d = Inl Null_deref) = (count d = 0))"
proof -
  have clr: "Errata_clear h s = Inr s' \<Longrightarrow> pointee s' h = Inr None"
    by (auto simp: Errata_clear_def pointee_def dest!: release_slot
        split: slot.splits option.splits)
  show ?thesis
    using clr
    by (auto simp: front_def count_def pointee_def Errata_ctor_def slot_of_def
        split: option.splits list.splits)
qed

theorem front_null_deref_witness:
  "Errata_clear 0 store_bad = Inr (store_bad\<lparr>heap := [None], handles := [Live None],
       trace := [Data_destroyed 0]\<rparr>)
   \<and> pointee (store_bad\<lparr>heap := [None], handles := [Live None],
       trace := [Data_destroyed 0]\<rparr>) 0 = Inr None
   \<and> front None = Inl Null_deref
   \<and> front (Some block_bad) = Inr note_bad"
proof -
  have c: "Errata_clear 0 store_bad = Inr (store_bad\<lparr>heap := [None], handles := [Live None],
       trace := [Data_destroyed 0]\<rparr>)"
    by (simp add: Errata_clear_def release_def store_bad_def block_bad_def slot_of_def
        block_def set_block_def set_data_def Data_empty_def Let_def)
  have f: "front (Some block_bad) = Inr note_bad"
    by (simp add: front_def block_bad_def)
  show ?thesis
    using c f front_null_deref [of store_bad 0
        "store_bad\<lparr>heap := [None], handles := [Live None], trace := [Data_destroyed 0]\<rparr>"
        "Some block_bad"]
    by simp
qed

subsection \<open>Assignment from an lvalue\<close>

text \<open>
  C7, as stated: assigning an lvalue \<open>b\<close> to \<open>a\<close> is available. The class deletes its
  copy assignment, so the assignment an lvalue selects is not available.
\<close>

theorem copy_assign_unavailable:
  "\<not> assignment_available Lvalue"
  by (simp add: assignment_available_def)

subsection \<open>The arena: what a write reaches and what it leaves alone\<close>

lemma length_poke [simp]: "length (poke off bs blk) = length blk"
  by (simp add: poke_def)

lemma poke_read:
  "length bs \<le> length blk - off \<Longrightarrow> take (length bs) (drop off (poke off bs blk)) = bs"
proof (cases "off \<le> length blk")
  case True
  assume a: "length bs \<le> length blk - off"
  have "drop off (poke off bs blk) = take (length blk - off) (bs @ drop (off + length bs) blk)"
    using True by (simp add: poke_def drop_take)
  then show ?thesis using a by simp
next
  case False
  assume a: "length bs \<le> length blk - off"
  then have "bs = []" using False by simp
  then show ?thesis by simp
qed

lemma poke_read0:
  "length bs \<le> length blk \<Longrightarrow> take (length bs) (poke 0 bs blk) = bs"
  using poke_read [of bs blk 0] by simp

lemma poke_below:
  "off' + n \<le> off \<Longrightarrow> take n (drop off' (poke off bs blk)) = take n (drop off' blk)"
proof -
  assume a: "off' + n \<le> off"
  have "take (off' + n) (poke off bs blk) = take (off' + n) blk"
    using a by (simp add: poke_def min_def)
  then have "drop off' (take (off' + n) (poke off bs blk)) = drop off' (take (off' + n) blk)"
    by simp
  then show ?thesis by (simp add: drop_take)
qed

lemma frozen_arena_store [simp]: "length (frozen (arena_store sp bs A)) = length (frozen A)"
  by (simp add: arena_store_def)

lemma allocated_arena_store [simp]: "allocated (arena_store sp bs A) = allocated A"
  by (simp add: arena_store_def)

lemma length_active_arena_store [simp]: "length (active (arena_store sp bs A)) = length (active A)"
  by (simp add: arena_store_def)

lemma arena_remaining_store [simp]: "arena_remaining (arena_store sp bs A) = arena_remaining A"
  by (simp add: arena_remaining_def)

lemma reserve_arena_store [simp]: "reserve (arena_store sp bs A) = reserve A"
  by (simp add: arena_store_def)

text \<open>Writing into the current block at or beyond the allocated part.\<close>

lemma store_active_view:
  assumes "sp_blk sp = length (frozen A)" "allocated A \<le> sp_off sp" "span_ok A sp'"
  shows "arena_view (arena_store sp bs A) sp' = arena_view A sp'"
  using assms
  by (auto simp: arena_view_def arena_store_def arena_block_def span_ok_def poke_below)

lemma store_active_read:
  assumes "sp_blk sp = length (frozen A)" "length bs \<le> length (active A) - sp_off sp"
    "length bs \<le> sp_len sp"
  shows "arena_view (arena_store sp bs A) (sp\<lparr>sp_len := length bs\<rparr>) = bs"
  using assms
  by (simp add: arena_view_def arena_store_def arena_block_def poke_read)

lemma store_frozen_active:
  "sp_blk sp = length (frozen A) \<Longrightarrow> frozen (arena_store sp bs A) = frozen A"
  by (simp add: arena_store_def)

lemma alloc_fit:
  "n \<le> arena_remaining A \<Longrightarrow>
   arena_alloc n A = (\<lparr>sp_blk = length (frozen A), sp_off = allocated A, sp_len = n\<rparr>,
                      A\<lparr>allocated := allocated A + n\<rparr>)"
  by (simp add: arena_alloc_def)

lemma alloc_grow:
  "\<not> n \<le> arena_remaining A \<Longrightarrow>
   arena_alloc n A = (\<lparr>sp_blk = Suc (length (frozen A)), sp_off = 0, sp_len = n\<rparr>,
                      A\<lparr>frozen := frozen A @ [active A],
                        active := replicate (max n (reserve A)) (CHR 0x00), allocated := n\<rparr>)"
  by (simp add: arena_alloc_def)

lemma spec_render_view:
  assumes "spec_render_into txt A = (sp, A')"
  shows "arena_view A' sp = txt \<and> sp_len sp = length txt"
proof (cases "length txt \<le> arena_remaining A")
  case True
  then show ?thesis using assms
    by (auto simp: spec_render_into_def arena_view_def arena_block_def arena_store_def
        arena_remnant_def arena_remaining_def poke_read poke_read0)
next
  case False
  then show ?thesis using assms
    by (auto simp: spec_render_into_def alloc_grow arena_view_def arena_block_def arena_store_def
        arena_remnant_def arena_remaining_def poke_read poke_read0)
qed

lemma view_allocated [simp]: "arena_view (A\<lparr>allocated := n\<rparr>) sp = arena_view A sp"
  by (simp add: arena_view_def arena_block_def)

lemma store_active_frozen_view:
  assumes "sp_blk sp = length (frozen A)" "sp_blk sp' < length (frozen A)"
  shows "arena_view (arena_store sp bs A) sp' = arena_view A sp'"
  using assms by (simp add: arena_view_def arena_store_def arena_block_def)

lemma grow_view:
  assumes "span_ok A sp'"
  shows "arena_view (A\<lparr>frozen := frozen A @ [active A], active := blk, allocated := n\<rparr>) sp'
           = arena_view A sp'"
  using assms by (auto simp: arena_view_def arena_block_def span_ok_def nth_append)

lemma span_ok_store:
  "span_ok (arena_store sp bs A) sp' = span_ok A sp'"
  by (simp add: span_ok_def)

lemma spec_render_frame:
  assumes r: "spec_render_into txt A = (sp, A')" and ok: "span_ok A sp'"
  shows "arena_view A' sp' = arena_view A sp' \<and> span_ok A' sp'"
proof (cases "length txt \<le> arena_remaining A")
  case True
  let ?A1 = "arena_store (arena_remnant A) txt A"
  from True r have A': "A' = ?A1\<lparr>allocated := allocated A + length txt\<rparr>"
    by (simp add: spec_render_into_def)
  have v: "arena_view ?A1 sp' = arena_view A sp'"
    by (rule store_active_view) (simp_all add: arena_remnant_def ok)
  have "span_ok A' sp'"
    using ok by (auto simp: A' span_ok_def)
  then show ?thesis using v by (simp add: A')
next
  case False
  let ?A1 = "arena_store (arena_remnant A) txt A"
  let ?sp = "\<lparr>sp_blk = Suc (length (frozen A)), sp_off = 0, sp_len = length txt\<rparr>"
  let ?A2 = "?A1\<lparr>frozen := frozen ?A1 @ [active ?A1],
                 active := replicate (max (length txt) (reserve A)) (CHR 0x00),
                 allocated := length txt\<rparr>"
  from False have g: "arena_alloc (length txt) ?A1 = (?sp, ?A2)"
    by (simp add: alloc_grow)
  from False r g have A': "A' = arena_store ?sp txt ?A2"
    by (auto simp: spec_render_into_def)
  have v1: "arena_view ?A1 sp' = arena_view A sp'"
    by (rule store_active_view) (simp_all add: arena_remnant_def ok)
  have ok1: "span_ok ?A1 sp'" using ok by (simp add: span_ok_store)
  have v2: "arena_view ?A2 sp' = arena_view ?A1 sp'"
    using ok1 by (rule grow_view)
  have lt: "sp_blk sp' < length (frozen ?A2)"
    using ok by (auto simp: span_ok_def)
  have v3: "arena_view (arena_store ?sp txt ?A2) sp' = arena_view ?A2 sp'"
    by (rule store_active_frozen_view) (use lt in simp_all)
  have "span_ok A' sp'"
    using lt by (simp add: A' span_ok_def)
  then show ?thesis using v1 v2 v3 by (simp add: A')
qed

lemma spec_render_ok:
  assumes r: "spec_render_into txt A = (sp, A')"
  shows "span_ok A' sp"
    and "allocated A \<le> length (active A) \<Longrightarrow> allocated A' \<le> length (active A')"
proof -
  show "span_ok A' sp"
  proof (cases "length txt \<le> arena_remaining A")
    case True
    with r show ?thesis by (auto simp: spec_render_into_def span_ok_def)
  next
    case False
    with r show ?thesis by (auto simp: spec_render_into_def alloc_grow span_ok_def)
  qed
  show "allocated A' \<le> length (active A')" if "allocated A \<le> length (active A)"
  proof (cases "length txt \<le> arena_remaining A")
    case True
    with r that show ?thesis by (auto simp: spec_render_into_def arena_remaining_def)
  next
    case False
    with r show ?thesis by (auto simp: spec_render_into_def alloc_grow)
  qed
qed

lemma alloc_store_view:
  assumes a: "arena_alloc (length txt) A = (sp, A2)"
  shows "arena_view (arena_store sp txt A2) sp = txt \<and> sp_len sp = length txt
     \<and> span_ok (arena_store sp txt A2) sp"
proof (cases "length txt \<le> arena_remaining A")
  case True
  with a have sp: "sp = \<lparr>sp_blk = length (frozen A), sp_off = allocated A, sp_len = length txt\<rparr>"
    and A2: "A2 = A\<lparr>allocated := allocated A + length txt\<rparr>"
    by (auto simp: alloc_fit)
  have "arena_view (arena_store sp txt A2) (sp\<lparr>sp_len := length txt\<rparr>) = txt"
    by (rule store_active_read) (use True in \<open>simp_all add: sp A2 arena_remaining_def\<close>)
  then show ?thesis by (simp add: sp A2 span_ok_def)
next
  case False
  with a have sp: "sp = \<lparr>sp_blk = Suc (length (frozen A)), sp_off = 0, sp_len = length txt\<rparr>"
    and A2: "A2 = A\<lparr>frozen := frozen A @ [active A],
                   active := replicate (max (length txt) (reserve A)) (CHR 0x00),
                   allocated := length txt\<rparr>"
    by (auto simp: alloc_grow)
  have "arena_view (arena_store sp txt A2) (sp\<lparr>sp_len := length txt\<rparr>) = txt"
    by (rule store_active_read) (simp_all add: sp A2)
  then show ?thesis by (simp add: sp A2 span_ok_def)
qed

lemma alloc_store_frame:
  assumes a: "arena_alloc (length txt) A = (sp, A2)" and ok: "span_ok A sp'"
  shows "arena_view (arena_store sp txt A2) sp' = arena_view A sp'
     \<and> span_ok (arena_store sp txt A2) sp'"
proof (cases "length txt \<le> arena_remaining A")
  case True
  with a have sp: "sp = \<lparr>sp_blk = length (frozen A), sp_off = allocated A, sp_len = length txt\<rparr>"
    and A2: "A2 = A\<lparr>allocated := allocated A + length txt\<rparr>"
    by (auto simp: alloc_fit)
  have "arena_view (arena_store sp txt A) sp' = arena_view A sp'"
    by (rule store_active_view) (simp_all add: sp ok)
  moreover have "arena_store sp txt A2 = (arena_store sp txt A)\<lparr>allocated := allocated A + length txt\<rparr>"
    by (simp add: arena_store_def sp A2)
  moreover have "span_ok (arena_store sp txt A2) sp'"
    using ok by (auto simp: span_ok_def A2)
  ultimately show ?thesis by simp
next
  case False
  with a have sp: "sp = \<lparr>sp_blk = Suc (length (frozen A)), sp_off = 0, sp_len = length txt\<rparr>"
    and A2: "A2 = A\<lparr>frozen := frozen A @ [active A],
                   active := replicate (max (length txt) (reserve A)) (CHR 0x00),
                   allocated := length txt\<rparr>"
    by (auto simp: alloc_grow)
  have v2: "arena_view A2 sp' = arena_view A sp'"
    unfolding A2 using ok by (rule grow_view)
  have lt: "sp_blk sp' < length (frozen A2)"
    using ok by (auto simp: span_ok_def A2)
  have v3: "arena_view (arena_store sp txt A2) sp' = arena_view A2 sp'"
    by (rule store_active_frozen_view) (use lt in \<open>simp_all add: sp A2\<close>)
  have "span_ok (arena_store sp txt A2) sp'"
    using lt by (simp add: span_ok_def)
  then show ?thesis using v2 v3 by simp
qed

lemma alloc_store_ok:
  assumes a: "arena_alloc (length txt) A = (sp, A2)"
    and ok: "allocated A \<le> length (active A)"
  shows "allocated (arena_store sp txt A2) \<le> length (active (arena_store sp txt A2))"
proof (cases "length txt \<le> arena_remaining A")
  case True
  with a ok show ?thesis by (auto simp: alloc_fit arena_remaining_def)
next
  case False
  with a show ?thesis by (auto simp: alloc_grow)
qed

lemma Data_localize_eq:
  "Data_localize txt D =
     (fst (arena_alloc (length txt) (arena D)),
      D\<lparr>arena := arena_store (fst (arena_alloc (length txt) (arena D))) txt
                   (snd (arena_alloc (length txt) (arena D)))\<rparr>)"
  by (simp add: Data_localize_def split: prod.splits)

subsection \<open>Writeable data\<close>

lemma writeable_data_unique:
  "slot_of s h = Live (Some p) \<Longrightarrow> block s p = Some D \<Longrightarrow> \<not> 1 < sint (ref_count D)
   \<Longrightarrow> writeable_data h s = Inr (p, s)"
  by (simp add: writeable_data_def)


lemma slot_of_heap_update [simp]: "slot_of (s\<lparr>heap := hp\<rparr>) h = slot_of s h"
  by (simp add: slot_of_def)

lemma block_heap_append:
  "block (s\<lparr>heap := heap s @ [x]\<rparr>) p =
     (if p = length (heap s) then x else block s p)"
  by (auto simp: block_def nth_append)

lemma writeable_dataD:
  assumes "writeable_data h s = Inr (p, s1)"
  shows "slot_of s1 h = Live (Some p) \<and> (\<exists>D. block s1 p = Some D \<and> \<not> 1 < sint (ref_count D))"
  using assms
  by (auto simp: writeable_data_def data_def Let_def block_heap_append slot_Live_less
      split: slot.splits option.splits if_splits)

lemma note_localized_unique:
  "slot_of s h = Live (Some p) \<Longrightarrow> block s p = Some D \<Longrightarrow> \<not> 1 < sint (ref_count D)
   \<Longrightarrow> note_localized h sev sp s = Inr (set_block p (push_note sev sp D) s)"
  by (simp add: note_localized_def writeable_data_unique)

lemma Errata_alloc_unique:
  "slot_of s h = Live (Some p) \<Longrightarrow> block s p = Some D \<Longrightarrow> \<not> 1 < sint (ref_count D)
   \<Longrightarrow> Errata_alloc h n s =
        Inr (fst (arena_alloc n (arena D)), set_block p (D\<lparr>arena := snd (arena_alloc n (arena D))\<rparr>) s)"
  by (simp add: Errata_alloc_def writeable_data_unique Data_alloc_def split: prod.splits)

lemma set_block_twice [simp]: "set_block p D (set_block p D' s) = set_block p D s"
  by (simp add: set_block_def)

lemma note_v_writeable:
  assumes w: "writeable_data h s = Inr (p, s1)" and b: "block s1 p = Some D"
  shows "note_v render h sev fmt args s =
           Inr (set_block p
                  (push_note sev (fst (spec_render_into (render fmt args) (arena D)))
                     (D\<lparr>arena := snd (spec_render_into (render fmt args) (arena D))\<rparr>)) s1)"
proof -
  let ?txt = "render fmt args"
  from writeable_dataD [OF w] b
  have h: "slot_of s1 h = Live (Some p)" and u: "\<not> 1 < sint (ref_count D)" by auto
  have pl: "p < length (heap s1)" using b by (rule block_Some_less)
  show ?thesis
  proof (cases "length ?txt \<le> arena_remaining (arena D)")
    case True
    then show ?thesis
      using w h b u pl
      by (simp add: note_v_def print_v_def bw_error_def Data_remnant_def
          arena_remnant_def Data_alloc_def arena_alloc_def note_localized_unique
          spec_render_into_def span_prefix_def min_def)
  next
    case False
    then show ?thesis
      using w h b u pl
      by (simp add: note_v_def print_v_def bw_error_def Data_remnant_def
          arena_remnant_def  Errata_alloc_unique note_localized_unique
          spec_render_into_def split: prod.splits)
  qed
qed

subsection \<open>The two paths of a rendering\<close>

lemma spec_render_slow:
  assumes lt: "arena_remaining A < length txt"
  shows "spec_render_into txt A =
     (\<lparr>sp_blk = Suc (length (frozen A)), sp_off = 0, sp_len = length txt\<rparr>,
      arena_store \<lparr>sp_blk = Suc (length (frozen A)), sp_off = 0, sp_len = length txt\<rparr> txt
        ((arena_store (arena_remnant A) txt A)
           \<lparr>frozen := frozen (arena_store (arena_remnant A) txt A)
                        @ [active (arena_store (arena_remnant A) txt A)],
            active := replicate (max (length txt) (reserve A)) (CHR 0x00),
            allocated := length txt\<rparr>))"
proof -
  let ?A1 = "arena_store (arena_remnant A) txt A"
  from lt have "\<not> length txt \<le> arena_remaining ?A1" by simp
  then have g: "arena_alloc (length txt) ?A1 =
      (\<lparr>sp_blk = Suc (length (frozen ?A1)), sp_off = 0, sp_len = length txt\<rparr>,
       ?A1\<lparr>frozen := frozen ?A1 @ [active ?A1],
            active := replicate (max (length txt) (reserve ?A1)) (CHR 0x00),
            allocated := length txt\<rparr>)"
    by (rule alloc_grow)
  from lt have "\<not> length txt \<le> arena_remaining A" by simp
  then show ?thesis
    using g by (simp add: spec_render_into_def)
qed

lemma remnant_first_render:
  assumes lt: "arena_remaining A < length txt" and r: "spec_render_into txt A = (sp, A')"
  shows "arena_view A' (arena_remnant A) = take (arena_remaining A) txt"
proof -
  let ?bs = "take (arena_remaining A) txt"
  have len: "length ?bs = arena_remaining A" using lt by simp
  have "take (length ?bs) (drop (allocated A) (poke (allocated A) ?bs (active A))) = ?bs"
    by (rule poke_read) (simp add: arena_remaining_def)
  then have rd: "take (arena_remaining A) (drop (allocated A) (poke (allocated A) ?bs (active A))) = ?bs"
    by (simp only: len)
  have a1: "active (arena_store (arena_remnant A) txt A) = poke (allocated A) ?bs (active A)"
    by (simp add: arena_store_def arena_remnant_def)
  have f1: "frozen (arena_store (arena_remnant A) txt A) = frozen A"
    by (simp add: arena_store_def arena_remnant_def)
  let ?A1 = "arena_store (arena_remnant A) txt A"
  let ?sp2 = "\<lparr>sp_blk = Suc (length (frozen A)), sp_off = 0, sp_len = length txt\<rparr>"
  let ?A2 = "?A1\<lparr>frozen := frozen ?A1 @ [active ?A1],
               active := replicate (max (length txt) (reserve A)) (CHR 0x00),
               allocated := length txt\<rparr>"
  from r spec_render_slow [OF lt] have A': "A' = arena_store ?sp2 txt ?A2" by auto
  have "frozen (arena_store ?sp2 txt ?A2) = frozen ?A2"
    by (rule store_frozen_active) (simp add: f1)
  then have fA': "frozen A' = frozen A @ [poke (allocated A) ?bs (active A)]"
    by (simp add: A' a1 f1)
  have "arena_block A' (length (frozen A)) = poke (allocated A) ?bs (active A)"
    by (simp add: arena_block_def fA')
  then show ?thesis using rd by (simp add: arena_view_def arena_remnant_def)
qed

subsection \<open>Formatted notes\<close>

text \<open>
  C6. For every formatted note on a handle that may be written: if the rendering fits the
  remainder of the arena's current block, the text is rendered into that remainder and
  exactly its bytes are committed (the span is the prefix of the remainder, the allocation
  grows by the length of the text, no block is added); otherwise the failed attempt has
  measured the length, exactly that many bytes are allocated in a fresh block, and the text
  is rendered again there (the old remainder still holds the truncated first attempt). On
  both paths the text of the new top annotation is the full rendering.
\<close>

theorem note_v_renders_full_text:
  assumes w: "writeable_data h s = Inr (p, s1)" and b: "block s1 p = Some D"
  shows "\<exists>sp A' D'.
       spec_render_into (render fmt args) (arena D) = (sp, A')
     \<and> D' = push_note sev sp (D\<lparr>arena := A'\<rparr>)
     \<and> note_v render h sev fmt args s = Inr (set_block p D' s1)
     \<and> pointee (set_block p D' s1) h = Inr (Some D')
     \<and> front (Some D') = Inr \<lparr>a_severity = sev, a_level = d_level D, a_text = sp\<rparr>
     \<and> arena_view (arena D') sp = render fmt args
     \<and> (length (render fmt args) \<le> arena_remaining (arena D) \<longrightarrow>
           sp = span_prefix (arena_remnant (arena D)) (length (render fmt args))
         \<and> A' = (arena_store (arena_remnant (arena D)) (render fmt args) (arena D))
                  \<lparr>allocated := allocated (arena D) + length (render fmt args)\<rparr>
         \<and> frozen A' = frozen (arena D))
     \<and> (arena_remaining (arena D) < length (render fmt args) \<longrightarrow>
           sp = \<lparr>sp_blk = Suc (length (frozen (arena D))), sp_off = 0,
                 sp_len = length (render fmt args)\<rparr>
         \<and> length (frozen A') = Suc (length (frozen (arena D)))
         \<and> allocated A' = length (render fmt args)
         \<and> arena_view A' (arena_remnant (arena D))
             = take (arena_remaining (arena D)) (render fmt args))"
proof -
  let ?txt = "render fmt args"
  obtain sp A' where r: "spec_render_into ?txt (arena D) = (sp, A')"
    by (cases "spec_render_into ?txt (arena D)")
  let ?D' = "push_note sev sp (D\<lparr>arena := A'\<rparr>)"
  from writeable_dataD [OF w] b
  have hs: "slot_of s1 h = Live (Some p)" by auto
  have pl: "p < length (heap s1)" using b by (rule block_Some_less)
  have nv: "note_v render h sev fmt args s = Inr (set_block p ?D' s1)"
    using note_v_writeable [OF w b, of render sev fmt args] r by simp
  have pt: "pointee (set_block p ?D' s1) h = Inr (Some ?D')"
    using hs pl by (simp add: pointee_def)
  have fr: "front (Some ?D') = Inr \<lparr>a_severity = sev, a_level = d_level D, a_text = sp\<rparr>"
    by (simp add: front_def push_note_def)
  have vw: "arena_view (arena ?D') sp = ?txt"
    using spec_render_view [OF r] by (simp add: push_note_def)
  have fast: "sp = span_prefix (arena_remnant (arena D)) (length ?txt)
         \<and> A' = (arena_store (arena_remnant (arena D)) ?txt (arena D))
                  \<lparr>allocated := allocated (arena D) + length ?txt\<rparr>
         \<and> frozen A' = frozen (arena D)"
    if "length ?txt \<le> arena_remaining (arena D)"
    using that r
    by (auto simp: spec_render_into_def span_prefix_def arena_remnant_def min_def
        store_frozen_active)
  have slow: "sp = \<lparr>sp_blk = Suc (length (frozen (arena D))), sp_off = 0, sp_len = length ?txt\<rparr>
         \<and> length (frozen A') = Suc (length (frozen (arena D)))
         \<and> allocated A' = length ?txt
         \<and> arena_view A' (arena_remnant (arena D)) = take (arena_remaining (arena D)) ?txt"
    if "arena_remaining (arena D) < length ?txt"
    using r remnant_first_render [OF that r] spec_render_slow [OF that]
    by auto
  show ?thesis
    using r nv pt fr vw fast slow by blast
qed

theorem note_v_renders_full_text_witness:
  "writeable_data 0 store_bad = Inr (0, store_bad)
   \<and> block store_bad 0 = Some block_bad
   \<and> (\<exists>sp D'. note_v (\<lambda>f a. f @ a) 0 WARN ''he'' ''llo'' store_bad = Inr (set_block 0 D' store_bad)
         \<and> front (Some D') = Inr \<lparr>a_severity = WARN, a_level = 0, a_text = sp\<rparr>
         \<and> arena_view (arena D') sp = ''hello'')"
proof -
  have w: "writeable_data 0 store_bad = Inr (0, store_bad)"
    by (simp add: writeable_data_def store_bad_def block_bad_def slot_of_def block_def)
  have b: "block store_bad 0 = Some block_bad"
    by (simp add: store_bad_def block_def)
  have l: "d_level block_bad = 0" by (simp add: block_bad_def)
  show ?thesis
    using w b l note_v_renders_full_text [OF w b, of "\<lambda>f a. f @ a" "''he''" "''llo''" WARN]
    by auto
qed

subsection \<open>Writing through a shared handle\<close>



subsection \<open>Releasing a block\<close>

lemma sink_calls_append: "sink_calls (xs @ ys) = sink_calls xs @ sink_calls ys"
  by (induction xs rule: sink_calls.induct) simp_all

lemma sink_calls_map: "sink_calls (map (\<lambda>f. Sink_call f v) fs) = map (\<lambda>f. (f, v)) fs"
  by (induction fs) simp_all

lemma destroyed_append: "destroyed (xs @ ys) = destroyed xs @ destroyed ys"
  by (induction xs rule: destroyed.induct) simp_all

lemma destroyed_map: "destroyed (map (\<lambda>f. Sink_call f v) fs) = []"
  by (induction fs) simp_all

lemma erratum_view_ref_count [simp]: "erratum_view (D\<lparr>ref_count := n\<rparr>) = erratum_view D"
  by (simp add: erratum_view_def)

lemma release_null: "slot_of s h = Live None \<Longrightarrow> release h s = Inr s"
  by (simp add: release_def)

lemma release_last:
  assumes "slot_of s h = Live (Some p)" "block s p = Some D" "ref_count D = 1"
  shows "release h s =
     Inr (set_data h None
            (s\<lparr>heap := (heap s)[p := None],
               trace := trace s
                 @ (if d_notes D = [] then []
                    else map (\<lambda>f. Sink_call f (erratum_view D)) (Sink_List s))
                 @ [Data_destroyed p]\<rparr>))"
  using assms by (simp add: release_def Data_empty_def)

lemma release_shared:
  assumes "slot_of s h = Live (Some p)" "block s p = Some D" "ref_count D \<noteq> 1"
  shows "release h s = Inr (set_data h None (set_block p (D\<lparr>ref_count := ref_count D - 1\<rparr>) s))"
  using assms by (simp add: release_def)

lemma block_heap_None:
  "block (s\<lparr>heap := (heap s)[p := None]\<rparr>) q = (if q = p then None else block s q)"
  by (auto simp: block_def)

lemma block_trace_update [simp]: "block (s\<lparr>trace := t\<rparr>) q = block s q"
  by (simp add: block_def)

lemma block_handles_update [simp]: "block (s\<lparr>handles := hs\<rparr>) q = block s q"
  by (simp add: block_def)

lemma slot_of_trace_update [simp]: "slot_of (s\<lparr>trace := t\<rparr>) h = slot_of s h"
  by (simp add: slot_of_def)

lemma trace_set_data [simp]: "trace (set_data h d s) = trace s"
  by (simp add: set_data_def)

lemma trace_set_block [simp]: "trace (set_block p D s) = trace s"
  by (simp add: set_block_def)

lemma Sink_List_set_block [simp]: "Sink_List (set_block p D s) = Sink_List s"
  by (simp add: set_block_def)

lemma swap_data_live:
  "slot_of s a = Live x \<Longrightarrow> slot_of s b = Live y \<Longrightarrow>
   swap_data a b s = Inr (set_data b x (set_data a y s))"
  by (simp add: swap_data_def)

lemma Errata_clear_last:
  assumes h: "slot_of s h = Live (Some p)" and b: "block s p = Some D" and l: "ref_count D = 1"
  shows "Errata_clear h s =
     Inr (set_data h None
            (s\<lparr>heap := (heap s)[p := None], trace := trace s @ [Data_destroyed p]\<rparr>))"
proof -
  let ?s1 = "set_block p (D\<lparr>d_notes := []\<rparr>) s"
  have pl: "p < length (heap s)" using b by (rule block_Some_less)
  have "release h ?s1 = Inr (set_data h None
            (?s1\<lparr>heap := (heap ?s1)[p := None],
               trace := trace ?s1
                 @ (if d_notes (D\<lparr>d_notes := []\<rparr>) = [] then []
                    else map (\<lambda>f. Sink_call f (erratum_view (D\<lparr>d_notes := []\<rparr>))) (Sink_List ?s1))
                 @ [Data_destroyed p]\<rparr>))"
    by (rule release_last) (use h pl l in simp_all)
  then show ?thesis
    using h b by (simp add: Errata_clear_def set_block_def set_data_def)
qed

subsection \<open>Abandonment reporting\<close>

text \<open>
  C2, amended. When the last handle of a block (count 1) is destroyed or assigned over while
  the block holds annotations of failure level, every sink registered at that moment is
  called exactly once with the view of the erratum, in the order of registration, and only
  then is the block destroyed; a block without annotations is destroyed without any call.
  Clearing the last handle never calls a sink, whatever the block holds: \<^verbatim>\<open>clear\<close> removes
  the messages first.
\<close>

theorem abandoned_erratum_reported:
  assumes h: "slot_of s h = Live (Some p)" and b: "block s p = Some D" and l: "ref_count D = 1"
  shows "(d_notes D \<noteq> [] \<and> \<not> sev_less (d_severity D) FAILURE_SEVERITY \<longrightarrow>
            (\<exists>s'. Errata_dtor h s = Inr s'
               \<and> trace s' = trace s @ map (\<lambda>f. Sink_call f (erratum_view D)) (Sink_List s)
                                    @ [Data_destroyed p]
               \<and> sink_calls (trace s')
                   = sink_calls (trace s) @ map (\<lambda>f. (f, erratum_view D)) (Sink_List s)
               \<and> block s' p = None \<and> slot_of s' h = Dead)
          \<and> (that \<noteq> h \<and> slot_of s that = Live d \<longrightarrow>
               (\<exists>s'. Errata_move_assign h that s = Inr s'
                  \<and> trace s' = trace s @ map (\<lambda>f. Sink_call f (erratum_view D)) (Sink_List s)
                                       @ [Data_destroyed p]
                  \<and> sink_calls (trace s')
                      = sink_calls (trace s) @ map (\<lambda>f. (f, erratum_view D)) (Sink_List s)
                  \<and> block s' p = None \<and> slot_of s' h = Live d \<and> slot_of s' that = Live None)))
       \<and> (d_notes D = [] \<longrightarrow>
            (\<exists>s'. Errata_dtor h s = Inr s' \<and> trace s' = trace s @ [Data_destroyed p]
               \<and> sink_calls (trace s') = sink_calls (trace s) \<and> block s' p = None)
          \<and> (that \<noteq> h \<and> slot_of s that = Live d \<longrightarrow>
               (\<exists>s'. Errata_move_assign h that s = Inr s'
                  \<and> trace s' = trace s @ [Data_destroyed p]
                  \<and> sink_calls (trace s') = sink_calls (trace s) \<and> block s' p = None)))
       \<and> (\<exists>s'. Errata_clear h s = Inr s' \<and> trace s' = trace s @ [Data_destroyed p]
              \<and> sink_calls (trace s') = sink_calls (trace s) \<and> block s' p = None
              \<and> slot_of s' h = Live None)"
proof -
  let ?ev = "(if d_notes D = [] then []
              else map (\<lambda>f. Sink_call f (erratum_view D)) (Sink_List s)) @ [Data_destroyed p]"
  let ?s1 = "set_data h None (s\<lparr>heap := (heap s)[p := None], trace := trace s @ ?ev\<rparr>)"
  have hl: "h < length (handles s)" using h by (rule slot_Live_less)
  have rel: "release h s = Inr ?s1"
    using release_last [OF h b l] by simp
  have tr1: "trace ?s1 = trace s @ ?ev" by simp
  have bl1: "block ?s1 p = None" by (simp add: block_heap_None)
  have dt: "Errata_dtor h s = Inr (?s1\<lparr>handles := (handles ?s1)[h := Dead]\<rparr>)"
    by (simp add: Errata_dtor_def rel)
  have dts: "slot_of (?s1\<lparr>handles := (handles ?s1)[h := Dead]\<rparr>) h = Dead"
    using hl by (simp add: slot_of_def set_data_def)
  have dtb: "block (?s1\<lparr>handles := (handles ?s1)[h := Dead]\<rparr>) p = None"
    by (simp only: block_handles_update bl1)
  have ma: "Errata_move_assign h that s = Inr (set_data that None (set_data h d ?s1))"
    if "that \<noteq> h" "slot_of s that = Live d"
  proof -
    have "slot_of ?s1 h = Live None" using hl by simp
    moreover have "slot_of ?s1 that = Live d" using that by simp
    ultimately have "swap_data h that ?s1 = Inr (set_data that None (set_data h d ?s1))"
      by (rule swap_data_live)
    then show ?thesis using that rel by (simp add: Errata_move_assign_def)
  qed
  have mas: "slot_of (set_data that None (set_data h d ?s1)) h = Live d
      \<and> slot_of (set_data that None (set_data h d ?s1)) that = Live None"
    if "that \<noteq> h" "slot_of s that = Live d"
    using that hl slot_Live_less [OF that(2)] by (simp add: set_data_def slot_of_def)
  have cl: "Errata_clear h s = Inr (set_data h None
            (s\<lparr>heap := (heap s)[p := None], trace := trace s @ [Data_destroyed p]\<rparr>))"
    using h b l by (rule Errata_clear_last)
  have A: "d_notes D \<noteq> [] \<Longrightarrow> \<exists>s'. Errata_dtor h s = Inr s'
               \<and> trace s' = trace s @ map (\<lambda>f. Sink_call f (erratum_view D)) (Sink_List s)
                                    @ [Data_destroyed p]
               \<and> sink_calls (trace s')
                   = sink_calls (trace s) @ map (\<lambda>f. (f, erratum_view D)) (Sink_List s)
               \<and> block s' p = None \<and> slot_of s' h = Dead"
    using dt dts dtb by (simp add: sink_calls_append sink_calls_map)
  have B: "d_notes D \<noteq> [] \<Longrightarrow> that \<noteq> h \<Longrightarrow> slot_of s that = Live d \<Longrightarrow>
      \<exists>s'. Errata_move_assign h that s = Inr s'
                  \<and> trace s' = trace s @ map (\<lambda>f. Sink_call f (erratum_view D)) (Sink_List s)
                                       @ [Data_destroyed p]
                  \<and> sink_calls (trace s')
                      = sink_calls (trace s) @ map (\<lambda>f. (f, erratum_view D)) (Sink_List s)
                  \<and> block s' p = None \<and> slot_of s' h = Live d \<and> slot_of s' that = Live None"
    using ma mas bl1 by (simp add: sink_calls_append sink_calls_map block_heap_None)
  have C: "d_notes D = [] \<Longrightarrow> \<exists>s'. Errata_dtor h s = Inr s' \<and> trace s' = trace s @ [Data_destroyed p]
               \<and> sink_calls (trace s') = sink_calls (trace s) \<and> block s' p = None"
    using dt dtb by (simp add: sink_calls_append)
  have E: "d_notes D = [] \<Longrightarrow> that \<noteq> h \<Longrightarrow> slot_of s that = Live d \<Longrightarrow>
      \<exists>s'. Errata_move_assign h that s = Inr s'
                  \<and> trace s' = trace s @ [Data_destroyed p]
                  \<and> sink_calls (trace s') = sink_calls (trace s) \<and> block s' p = None"
    using ma by (simp add: sink_calls_append block_heap_None)
  have F: "\<exists>s'. Errata_clear h s = Inr s' \<and> trace s' = trace s @ [Data_destroyed p]
              \<and> sink_calls (trace s') = sink_calls (trace s) \<and> block s' p = None
              \<and> slot_of s' h = Live None"
    using cl hl by (simp add: sink_calls_append block_heap_None)
  show ?thesis using A B C E F by blast
qed

lemma store_bad_facts:
  "slot_of store_bad 0 = Live (Some 0)" "block store_bad 0 = Some block_bad"
  "ref_count block_bad = 1" "d_notes block_bad = [note_bad]" "d_severity block_bad = ERROR"
  "Sink_List store_bad = [7, 9]" "trace store_bad = []"
  by (simp_all add: store_bad_def block_bad_def slot_of_def block_def)

theorem abandoned_erratum_reported_witness:
  "slot_of store_bad 0 = Live (Some 0) \<and> block store_bad 0 = Some block_bad
   \<and> ref_count block_bad = 1 \<and> d_notes block_bad \<noteq> []
   \<and> \<not> sev_less (d_severity block_bad) FAILURE_SEVERITY
   \<and> (\<exists>s'. Errata_dtor 0 store_bad = Inr s'
          \<and> trace s' = [Sink_call 7 [(ERROR, 0, ''bad'')], Sink_call 9 [(ERROR, 0, ''bad'')],
                         Data_destroyed 0])"
proof -
  have v: "erratum_view block_bad = [(ERROR, 0, ''bad'')]"
    by (simp add: erratum_view_def block_bad_def note_bad_def arena_view_def arena_block_def)
  have f: "\<not> sev_less (d_severity block_bad) FAILURE_SEVERITY"
    by (simp add: store_bad_facts sev_less_def FAILURE_SEVERITY_def)
  show ?thesis
    using f v abandoned_erratum_reported [OF store_bad_facts(1) store_bad_facts(2) store_bad_facts(3),
        of 0 None]
    by (auto simp: store_bad_facts)
qed

text \<open>
  C2, as stated: clearing the last handle of a non-empty block with failure-level content
  calls every registered sink. In the example store the block holds one \<^verbatim>\<open>ERROR\<close> note, its
  count is 1, the sinks 7 and 9 are registered, and clearing the handle leaves a trace with
  the destruction of the block only.
\<close>

theorem clear_calls_no_sink:
  "slot_of store_bad 0 = Live (Some 0) \<and> block store_bad 0 = Some block_bad
   \<and> ref_count block_bad = 1 \<and> d_notes block_bad = [note_bad]
   \<and> d_severity block_bad = ERROR \<and> Sink_List store_bad = [7, 9]
   \<and> Errata_clear 0 store_bad
       = Inr (store_bad\<lparr>heap := [None], handles := [Live None], trace := [Data_destroyed 0]\<rparr>)"
  by (simp add: store_bad_facts)
    (simp add: Errata_clear_def release_def store_bad_def block_bad_def slot_of_def
      block_def set_block_def set_data_def Data_empty_def Let_def)

lemma release_total:
  "slot_of s h = Live (Some p) \<Longrightarrow> block s p = Some D \<Longrightarrow> \<exists>s'. release h s = Inr s'"
  by (simp add: release_def Let_def)

lemma Errata_clear_total:
  assumes "pointee s h = Inr d"
  shows "\<exists>s'. Errata_clear h s = Inr s' \<and> pointee s' h = Inr None"
proof -
  have "\<exists>s'. Errata_clear h s = Inr s'"
  proof (cases "slot_of s h")
    case Dead
    with assms show ?thesis by (simp add: pointee_def)
  next
    case (Live q)
    show ?thesis
    proof (cases q)
      case None
      with Live show ?thesis by (simp add: Errata_clear_def)
    next
      case (Some p)
      with Live assms obtain D where b: "block s p = Some D"
        by (auto simp: pointee_def split: option.splits)
      have pl: "p < length (heap s)" using b by (rule block_Some_less)
      have "\<exists>s'. release h (set_block p (D\<lparr>d_notes := []\<rparr>) s) = Inr s'"
        by (rule release_total [where p = p]) (use Live Some pl in simp_all)
      then show ?thesis using Live Some b by (simp add: Errata_clear_def)
    qed
  qed
  then obtain s' where c: "Errata_clear h s = Inr s'" ..
  then have "pointee s' h = Inr None"
    by (auto simp: Errata_clear_def pointee_def dest!: release_slot
        split: slot.splits option.splits)
  with c show ?thesis by blast
qed

subsection \<open>The result wrapper\<close>

text \<open>
  C9. \<^verbatim>\<open>Rv<R>::clear()\<close> has no return statement although it is declared to return
  \<^verbatim>\<open>self_type &\<close>. On every wrapper whose \<^verbatim>\<open>Errata\<close> member is alive, the one statement of
  the body, \<^verbatim>\<open>errata().clear()\<close>, succeeds and leaves the member empty; control then flows
  off the end of the function, so the call as a whole has no defined outcome: it never
  yields a wrapper with an unchanged result and a cleared erratum, whether the caller uses
  the reference or not.
\<close>

theorem Rv_clear_flows_off_end:
  assumes "pointee s (Rv_errata rv) = Inr d"
  shows "Rv_clear rv s = Inl Missing_return
       \<and> (\<forall>x. Rv_clear rv s \<noteq> Inr x)
       \<and> (\<exists>s'. Errata_clear (Rv_errata rv) s = Inr s' \<and> pointee s' (Rv_errata rv) = Inr None)"
  using Errata_clear_total [OF assms] by (auto simp: Rv_clear_def)

theorem Rv_clear_flows_off_end_witness:
  "pointee store_bad (Rv_errata \<lparr>Rv_r = Value (5 :: 32 word), Rv_errata = 0\<rparr>)
     = Inr (Some block_bad)
   \<and> Rv_clear \<lparr>Rv_r = Value (5 :: 32 word), Rv_errata = 0\<rparr> store_bad = Inl Missing_return
   \<and> (\<exists>s'. Errata_clear 0 store_bad = Inr s' \<and> pointee s' 0 = Inr None)"
proof -
  have p: "pointee store_bad (Rv_errata \<lparr>Rv_r = Value (5 :: 32 word), Rv_errata = 0\<rparr>)
      = Inr (Some block_bad)"
    by (simp add: pointee_def store_bad_facts)
  show ?thesis
    using p Rv_clear_flows_off_end [OF p] by auto
qed

lemma sev_max_ERROR [simp]: "sev_max ERROR v = ERROR" "sev_max v ERROR = ERROR"
  by (cases v; simp add: sev_max_def sev_less_def)+

lemma max_severity_ERROR:
  "\<exists>a \<in> set ns. a_severity a = ERROR \<Longrightarrow> max_severity ns = ERROR"
proof (induction ns)
  case Nil
  then show ?case by simp
next
  case (Cons a ns)
  show ?case
  proof (cases "a_severity a = ERROR")
    case True
    then show ?thesis by (simp add: max_severity_def)
  next
    case False
    with Cons.prems have "\<exists>a \<in> set ns. a_severity a = ERROR" by auto
    from Cons.IH [OF this] show ?thesis by (simp add: max_severity_def)
  qed
qed

lemma Errata_move_live:
  assumes "slot_of s that = Live d"
  shows "Errata_move that s =
     Inr (length (handles s), s\<lparr>handles := (handles s)[that := Live None] @ [Live d]\<rparr>)"
proof -
  have tl: "that < length (handles s)" using assms by (rule slot_Live_less)
  let ?s1 = "s\<lparr>handles := handles s @ [Live None]\<rparr>"
  have a: "slot_of ?s1 (length (handles s)) = Live None" by (simp add: slot_of_def)
  have b: "slot_of ?s1 that = Live d" using assms tl by (simp add: slot_of_def nth_append)
  have "swap_data (length (handles s)) that ?s1
      = Inr (set_data that None (set_data (length (handles s)) d ?s1))"
    using a b by (rule swap_data_live)
  then show ?thesis
    using tl assms by (simp add: Errata_move_def Let_def set_data_def list_update_append1)
qed

text \<open>
  C8, amended. An \<^verbatim>\<open>Rv<R>\<close> constructed only from an erratum that carries an \<^verbatim>\<open>ERROR\<close>
  annotation takes the erratum over, its \<^verbatim>\<open>is_ok()\<close> is false, and its result is what
  default-initialisation of \<open>R\<close> leaves: for \<^verbatim>\<open>Rv<int>\<close> an indeterminate value, not a
  guaranteed 0. The aggregate severity of the block covers its annotations, as it does in
  every store a program reaches (\<open>reachable_invariants\<close>).
\<close>

theorem Rv_from_failed_errata:
  assumes e: "slot_of s e = Live (Some p)" and b: "block s p = Some D"
    and sev: "severity_covers D"
    and err: "\<exists>a \<in> set (d_notes D). a_severity a = ERROR"
  shows "(\<exists>rv s'. Rv_int_from_errata e s = Inr (rv, s')
           \<and> Rv_result rv = Indeterminate \<and> Rv_result rv \<noteq> Value 0
           \<and> Rv_is_ok rv s' = Inr False
           \<and> pointee s' (Rv_errata rv) = Inr (Some D) \<and> pointee s' e = Inr None)
       \<and> (\<exists>rv s'. Rv_from_errata dflt e s = Inr (rv, s')
           \<and> Rv_result rv = dflt
           \<and> Rv_is_ok rv s' = Inr False
           \<and> pointee s' (Rv_errata rv) = Inr (Some D) \<and> pointee s' e = Inr None)"
proof -
  let ?s' = "s\<lparr>handles := (handles s)[e := Live None] @ [Live (Some p)]\<rparr>"
  let ?h = "length (handles s)"
  have el: "e < length (handles s)" using e by (rule slot_Live_less)
  have mv: "Errata_move e s = Inr (?h, ?s')" using e by (rule Errata_move_live)
  have ph: "pointee ?s' ?h = Inr (Some D)"
    using b by (simp add: pointee_def slot_of_def nth_append)
  have pe: "pointee ?s' e = Inr None"
    using el by (simp add: pointee_def slot_of_def nth_append)
  have "\<not> sev_less (d_severity D) ERROR"
    using sev err by (simp add: severity_covers_def max_severity_ERROR)
  then have "d_severity D = ERROR"
    by (cases "d_severity D") (simp_all add: sev_less_def)
  moreover have "d_notes D \<noteq> []" using err by auto
  ultimately have nok: "\<not> is_ok (Some D)"
    by (simp add: is_ok_def sev_less_def FAILURE_SEVERITY_def)
  show ?thesis
    using mv ph pe nok
    by (simp add: Rv_int_from_errata_def Rv_from_errata_def Rv_result_def default_init_int_def
        Rv_is_ok_def)
qed

theorem Rv_from_failed_errata_witness:
  "slot_of store_bad 0 = Live (Some 0) \<and> block store_bad 0 = Some block_bad
   \<and> severity_covers block_bad
   \<and> a_severity note_bad = ERROR \<and> d_notes block_bad = [note_bad]
   \<and> (\<exists>rv s'. Rv_int_from_errata 0 store_bad = Inr (rv, s')
         \<and> Rv_result rv = Indeterminate \<and> Rv_is_ok rv s' = Inr False)"
proof -
  have m: "severity_covers block_bad"
    by (simp add: severity_covers_def block_bad_def note_bad_def max_severity_def sev_less_def)
  have a: "a_severity note_bad = ERROR" by (simp add: note_bad_def)
  then have x: "\<exists>a \<in> set (d_notes block_bad). a_severity a = ERROR"
    by (simp add: store_bad_facts)
  show ?thesis
    using m a Rv_from_failed_errata [OF store_bad_facts(1) store_bad_facts(2) m x,
        where dflt = "Indeterminate :: 32 word cell"]
    by (simp add: store_bad_facts) blast
qed

text \<open>
  C8, as stated: the result of \<^verbatim>\<open>Rv<int>(std::move(e))\<close> equals 0. In the example store the
  constructor leaves \<^verbatim>\<open>_r\<close> indeterminate.
\<close>

theorem Rv_int_result_not_zero:
  "Rv_int_from_errata 0 store_bad
     = Inr (\<lparr>Rv_r = Indeterminate, Rv_errata = 1\<rparr>,
            store_bad\<lparr>handles := [Live None, Live (Some 0)]\<rparr>)
   \<and> Rv_result \<lparr>Rv_r = Indeterminate :: 32 word cell, Rv_errata = 1\<rparr> \<noteq> Value 0"
  by (simp add: Rv_int_from_errata_def Rv_from_errata_def Errata_move_def swap_data_def
      slot_of_def set_data_def store_bad_def default_init_int_def Rv_result_def Let_def)

subsection \<open>Merging one erratum into another\<close>

lemma Errata_note_writeable:
  assumes w: "writeable_data h s = Inr (p, s1)" and b: "block s1 p = Some D"
  shows "Errata_note h sev txt s =
     Inr (set_block p (push_note sev (fst (Data_localize txt D)) (snd (Data_localize txt D))) s1)"
  using w b by (simp add: Errata_note_def split: prod.splits)

lemma note_push:
  assumes ok: "texts_in_arena D"
  shows "texts (Some (push_note sev (fst (Data_localize txt D)) (snd (Data_localize txt D))))
           = txt # texts (Some D)"
    and "texts_in_arena (push_note sev (fst (Data_localize txt D)) (snd (Data_localize txt D)))"
    and "ref_count (push_note sev (fst (Data_localize txt D)) (snd (Data_localize txt D)))
           = ref_count D"
    and "d_notes (push_note sev (fst (Data_localize txt D)) (snd (Data_localize txt D)))
           = \<lparr>a_severity = sev, a_level = d_level D, a_text = fst (Data_localize txt D)\<rparr>
               # d_notes D"
proof -
  obtain sp A2 where a: "arena_alloc (length txt) (arena D) = (sp, A2)"
    by (cases "arena_alloc (length txt) (arena D)")
  let ?A3 = "arena_store sp txt A2"
  have loc: "Data_localize txt D = (sp, D\<lparr>arena := ?A3\<rparr>)"
    using a by (simp add: Data_localize_def)
  have v: "arena_view ?A3 sp = txt" and sok: "span_ok ?A3 sp"
    using alloc_store_view [OF a] by simp_all
  have old: "arena_view ?A3 (a_text x) = arena_view (arena D) (a_text x) \<and> span_ok ?A3 (a_text x)"
    if "x \<in> set (d_notes D)" for x
  proof -
    from ok that have "span_ok (arena D) (a_text x)"
      by (simp add: texts_in_arena_def list_all_iff)
    then show ?thesis by (rule alloc_store_frame [OF a])
  qed
  show "texts (Some (push_note sev (fst (Data_localize txt D)) (snd (Data_localize txt D))))
           = txt # texts (Some D)"
    using v old by (simp add: loc push_note_def texts_def)
  show "texts_in_arena (push_note sev (fst (Data_localize txt D)) (snd (Data_localize txt D)))"
    using sok old by (simp add: loc push_note_def texts_in_arena_def list_all_iff)
  show "ref_count (push_note sev (fst (Data_localize txt D)) (snd (Data_localize txt D)))
           = ref_count D"
    by (simp add: loc push_note_def)
  show "d_notes (push_note sev (fst (Data_localize txt D)) (snd (Data_localize txt D)))
           = \<lparr>a_severity = sev, a_level = d_level D, a_text = fst (Data_localize txt D)\<rparr>
               # d_notes D"
    by (simp add: loc push_note_def)
qed

lemma note_each_unique:
  assumes "slot_of s h = Live (Some p)" "block s p = Some D" "\<not> 1 < sint (ref_count D)"
    "texts_in_arena D"
  shows "\<exists>D'. note_each h ms s = Inr (set_block p D' s)
       \<and> texts (Some D') = rev (map snd ms) @ texts (Some D)
       \<and> ref_count D' = ref_count D \<and> texts_in_arena D'"
  using assms
proof (induction ms arbitrary: s D)
  case Nil
  have "set_block p D s = s"
    using Nil.prems(2) by (simp add: set_block_def block_def list_update_same_conv split: if_splits)
  then have "note_each h [] s = Inr (set_block p D s)" by simp
  then show ?case using Nil.prems(4) by (intro exI [of _ D]) simp
next
  case (Cons m ms)
  let ?D1 = "push_note (fst m) (fst (Data_localize (snd m) D)) (snd (Data_localize (snd m) D))"
  let ?s1 = "set_block p ?D1 s"
  have pl: "p < length (heap s)" using Cons.prems(2) by (rule block_Some_less)
  have w: "writeable_data h s = Inr (p, s)"
    using Cons.prems(1,2,3) by (rule writeable_data_unique)
  have n: "Errata_note h (fst m) (snd m) s = Inr ?s1"
    using w Cons.prems(2) by (rule Errata_note_writeable)
  have t1: "texts (Some ?D1) = snd m # texts (Some D)"
    and ok1: "texts_in_arena ?D1" and rc1: "ref_count ?D1 = ref_count D"
    using note_push [OF Cons.prems(4)] by auto
  have "\<exists>D'. note_each h ms ?s1 = Inr (set_block p D' ?s1)
       \<and> texts (Some D') = rev (map snd ms) @ texts (Some ?D1)
       \<and> ref_count D' = ref_count ?D1 \<and> texts_in_arena D'"
    by (rule Cons.IH) (use Cons.prems pl ok1 rc1 in simp_all)
  then show ?case
    using n t1 rc1 by auto
qed

lemma note_each_writeable:
  assumes w: "writeable_data h s = Inr (p, s1)" and b: "block s1 p = Some D"
    and ok: "texts_in_arena D" and ne: "ms \<noteq> []"
  shows "\<exists>D'. note_each h ms s = Inr (set_block p D' s1)
       \<and> texts (Some D') = rev (map snd ms) @ texts (Some D)
       \<and> ref_count D' = ref_count D \<and> texts_in_arena D'"
proof -
  from ne obtain m ms' where ms: "ms = m # ms'" by (cases ms) auto
  let ?D1 = "push_note (fst m) (fst (Data_localize (snd m) D)) (snd (Data_localize (snd m) D))"
  let ?s2 = "set_block p ?D1 s1"
  from writeable_dataD [OF w] b
  have hs: "slot_of s1 h = Live (Some p)" and u: "\<not> 1 < sint (ref_count D)" by auto
  have pl: "p < length (heap s1)" using b by (rule block_Some_less)
  have n: "Errata_note h (fst m) (snd m) s = Inr ?s2"
    using w b by (rule Errata_note_writeable)
  have t1: "texts (Some ?D1) = snd m # texts (Some D)"
    and ok1: "texts_in_arena ?D1" and rc1: "ref_count ?D1 = ref_count D"
    using note_push [OF ok] by auto
  have "\<exists>D'. note_each h ms' ?s2 = Inr (set_block p D' ?s2)
       \<and> texts (Some D') = rev (map snd ms') @ texts (Some ?D1)
       \<and> ref_count D' = ref_count ?D1 \<and> texts_in_arena D'"
    by (rule note_each_unique) (use hs pl u ok1 rc1 in simp_all)
  then show ?thesis
    using n t1 rc1 by (auto simp: ms)
qed

lemma length_texts: "length (texts d) = count d"
  by (simp add: texts_def count_def split: option.splits)

lemma pointee_cases:
  "pointee s h = Inr d \<Longrightarrow>
     (slot_of s h = Live None \<and> d = None)
   \<or> (\<exists>p D. slot_of s h = Live (Some p) \<and> block s p = Some D \<and> d = Some D)"
  by (cases "slot_of s h"; simp add: pointee_def split: option.splits) metis+

lemma trace_heap_update [simp]: "trace (s\<lparr>heap := hp\<rparr>) = trace s"
  by simp

lemma owner_writeable:
  assumes ua: "owns_uniquely s a" and pa: "pointee s a = Inr dA"
    and pb: "pointee s b = Inr dB" and ne: "a \<noteq> b" and na: "\<not> aliased s a b"
  shows "\<exists>p s1 D. writeable_data a s = Inr (p, s1) \<and> block s1 p = Some D
       \<and> texts_in_arena D \<and> texts (Some D) = texts dA
       \<and> slot_of s1 a = Live (Some p)
       \<and> slot_of s1 b = slot_of s b \<and> slot_of s b \<noteq> Live (Some p)
       \<and> (\<forall>q. q \<noteq> p \<longrightarrow> block s1 q = block s q)
       \<and> trace s1 = trace s \<and> Sink_List s1 = Sink_List s"
proof -
  from pointee_cases [OF pa] show ?thesis
  proof
    assume e: "slot_of s a = Live None \<and> dA = None"
    let ?p = "length (heap s)"
    let ?D = "\<lparr>ref_count = 1, d_notes = [], arena = new_arena (arena_size s),
               d_level = 0, d_severity = DEFAULT_SEVERITY\<rparr>"
    let ?s1 = "set_data a (Some ?p) (s\<lparr>heap := heap s @ [Some ?D]\<rparr>)"
    have al: "a < length (handles s)" using e by (simp add: slot_Live_less)
    have w: "writeable_data a s = Inr (?p, ?s1)"
      using e by (simp add: writeable_data_def data_def Let_def)
    have b1: "block ?s1 ?p = Some ?D" by (simp add: block_heap_append)
    have nb: "slot_of s b \<noteq> Live (Some ?p)"
      using pointee_cases [OF pb] by (auto dest: block_Some_less)
    have fr: "\<forall>q. q \<noteq> ?p \<longrightarrow> block ?s1 q = block s q"
      by (simp add: block_heap_append)
    have sa: "slot_of ?s1 a = Live (Some ?p)" using al by simp
    have sb: "slot_of ?s1 b = slot_of s b" using ne by simp
    have tr: "trace ?s1 = trace s \<and> Sink_List ?s1 = Sink_List s" by (simp add: set_data_def)
    have tx: "texts_in_arena ?D \<and> texts (Some ?D) = texts dA"
      using e by (simp add: texts_in_arena_def texts_def)
    show ?thesis
      using w b1 nb fr sa sb tr tx by blast
  next
    assume "\<exists>p D. slot_of s a = Live (Some p) \<and> block s p = Some D \<and> dA = Some D"
    then obtain p D where sa: "slot_of s a = Live (Some p)" and bp: "block s p = Some D"
      and dA: "dA = Some D" by blast
    from ua sa bp have rc: "ref_count D = 1" and ok: "texts_in_arena D"
      by (simp_all add: owns_uniquely_def)
    have w: "writeable_data a s = Inr (p, s)"
      using sa bp by (rule writeable_data_unique) (simp add: rc)
    have nb: "slot_of s b \<noteq> Live (Some p)"
      using na sa by (simp add: aliased_def)
    show ?thesis
      using w bp ok dA sa nb by blast
  qed
qed

lemma note_copy_result:
  assumes ua: "owns_uniquely s a" and pa: "pointee s a = Inr dA"
    and pb: "pointee s b = Inr dB" and ne: "a \<noteq> b" and na: "\<not> aliased s a b"
  shows "\<exists>s' d'. Errata_note_copy a b s = Inr s' \<and> pointee s' a = Inr d'
       \<and> texts d' = texts dB @ texts dA
       \<and> pointee s' b = Inr dB \<and> \<not> aliased s' a b
       \<and> trace s' = trace s \<and> Sink_List s' = Sink_List s"
proof (cases "texts dB = []")
  case True
  have la: "slot_of s a \<noteq> Dead" using pa by (auto simp: pointee_def)
  have "Errata_note_copy a b s = Inr s"
  proof (cases dB)
    case None
    then show ?thesis using la pb by (simp add: Errata_note_copy_def split: slot.splits)
  next
    case (Some DB)
    with True have "d_notes DB = []" by (simp add: texts_def)
    then show ?thesis
      using la pb Some by (simp add: Errata_note_copy_def split: slot.splits)
  qed
  then show ?thesis using True pa pb na by simp
next
  case False
  then obtain DB where dB: "dB = Some DB" and nn: "d_notes DB \<noteq> []"
    by (cases dB) (auto simp: texts_def)
  let ?ms = "rev (map (\<lambda>x. (a_severity x, arena_view (arena DB) (a_text x))) (d_notes DB))"
  have ms: "?ms \<noteq> []" using nn by simp
  have rs: "rev (map snd ?ms) = texts dB"
    by (simp add: dB texts_def rev_map [symmetric] comp_def)
  have la: "slot_of s a \<noteq> Dead" using pa by (auto simp: pointee_def)
  have nc: "Errata_note_copy a b s = note_each a ?ms s"
    using la pb dB by (simp add: Errata_note_copy_def split: slot.splits)
  from owner_writeable [OF ua pa pb ne na]
  obtain p s1 D where w: "writeable_data a s = Inr (p, s1)" and b1: "block s1 p = Some D"
    and ok: "texts_in_arena D" and tx: "texts (Some D) = texts dA"
    and sa: "slot_of s1 a = Live (Some p)"
    and sb: "slot_of s1 b = slot_of s b" and nb: "slot_of s b \<noteq> Live (Some p)"
    and fr: "\<forall>q. q \<noteq> p \<longrightarrow> block s1 q = block s q"
    and tr: "trace s1 = trace s" and sl: "Sink_List s1 = Sink_List s"
    by blast
  from note_each_writeable [OF w b1 ok ms]
  obtain D' where ne': "note_each a ?ms s = Inr (set_block p D' s1)"
    and t': "texts (Some D') = rev (map snd ?ms) @ texts (Some D)" by blast
  let ?s' = "set_block p D' s1"
  have pl: "p < length (heap s1)" using b1 by (rule block_Some_less)
  have pa': "pointee ?s' a = Inr (Some D')"
    using sa pl by (simp add: pointee_def)
  have pb': "pointee ?s' b = Inr dB"
  proof -
    have "pointee ?s' b = pointee s b"
      using sb nb fr by (auto simp: pointee_def split: slot.splits option.splits)
    then show ?thesis using pb by simp
  qed
  have na': "\<not> aliased ?s' a b"
    using sa sb nb pl by (simp add: aliased_def)
  show ?thesis
    using nc ne' pa' pb' na' t' rs tx tr sl by simp
qed

lemma Errata_clear_frame:
  assumes c: "Errata_clear b s = Inr s'" and ne: "a \<noteq> b" and na: "\<not> aliased s a b"
  shows "pointee s' a = pointee s a \<and> sink_calls (trace s') = sink_calls (trace s)"
proof (cases "slot_of s b")
  case Dead
  with c show ?thesis by (simp add: Errata_clear_def)
next
  case (Live d)
  show ?thesis
  proof (cases d)
    case None
    with Live c show ?thesis by (simp add: Errata_clear_def)
  next
    case (Some q)
    with Live c obtain D where bq: "block s q = Some D"
      by (cases "block s q") (auto simp: Errata_clear_def)
    have ql: "q < length (heap s)" using bq by (rule block_Some_less)
    have bl: "b < length (handles s)" using Live by (rule slot_Live_less)
    let ?s0 = "set_block q (D\<lparr>d_notes := []\<rparr>) s"
    have r: "release b ?s0 = Inr s'"
      using c Live Some bq by (simp add: Errata_clear_def)
    have nq: "slot_of s a \<noteq> Live (Some q)"
      using na Live Some by (auto simp: aliased_def)
    have sl: "slot_of s' a = slot_of s a"
      using r Live Some ql ne
      by (auto simp: release_def Let_def split: if_splits)
    have fr: "block s' x = block s x" if "x \<noteq> q" for x
      using r Live Some ql that
      by (auto simp: release_def Let_def block_def set_block_def set_data_def split: if_splits)
    have tr: "sink_calls (trace s') = sink_calls (trace s)"
      using r Live Some ql
      by (auto simp: release_def Let_def Data_empty_def sink_calls_append split: if_splits)
    have "pointee s' a = pointee s a"
      using sl nq fr by (auto simp: pointee_def split: slot.splits option.splits)
    then show ?thesis using tr by simp
  qed
qed

lemma Errata_dtor_null:
  "slot_of s h = Live None \<Longrightarrow>
   Errata_dtor h s = Inr (s\<lparr>handles := (handles s)[h := Dead]\<rparr>)"
  by (simp add: Errata_dtor_def release_null)

text \<open>
  C5. For every pair of handles \<open>a\<close> and \<open>b\<close>, where \<open>a\<close> may be written (it is empty or
  the only owner of its block) and \<open>b\<close> is another handle that does not share the block of
  \<open>a\<close>: after \<^verbatim>\<open>a.note(b)\<close> the number of annotations of \<open>a\<close> is the sum of both counts and
  the texts of \<open>b\<close> are there verbatim, read from the arena of \<open>a\<close>, ahead of the texts
  \<open>a\<close> had; \<open>b\<close> is unchanged. The move form \<^verbatim>\<open>a.note(std::move(b))\<close> gives \<open>a\<close> the same and
  leaves \<open>b\<close> empty; no sink is called by it, and destroying \<open>b\<close> afterwards adds nothing
  to the trace. In a store that a program reaches, a handle whose block has count 1 meets
  these conditions against every other handle (\<open>reachable_owner\<close>).
\<close>

theorem note_merges_annotations:
  assumes ua: "owns_uniquely s a" and pa: "pointee s a = Inr dA"
    and pb: "pointee s b = Inr dB" and ne: "a \<noteq> b" and na: "\<not> aliased s a b"
  shows "(\<exists>s' d'. Errata_note_copy a b s = Inr s' \<and> pointee s' a = Inr d'
            \<and> count d' = count dA + count dB
            \<and> texts d' = texts dB @ texts dA
            \<and> pointee s' b = Inr dB)
       \<and> (\<exists>s' d'. Errata_note_move a b s = Inr s' \<and> pointee s' a = Inr d'
            \<and> count d' = count dA + count dB
            \<and> texts d' = texts dB @ texts dA
            \<and> pointee s' b = Inr None \<and> Errata_empty None \<and> count None = 0
            \<and> sink_calls (trace s') = sink_calls (trace s)
            \<and> (\<exists>s''. Errata_dtor b s' = Inr s'' \<and> trace s'' = trace s'))"
proof -
  from note_copy_result [OF ua pa pb ne na]
  obtain s1 d' where nc: "Errata_note_copy a b s = Inr s1" and pa1: "pointee s1 a = Inr d'"
    and tx: "texts d' = texts dB @ texts dA" and pb1: "pointee s1 b = Inr dB"
    and na1: "\<not> aliased s1 a b" and tr1: "trace s1 = trace s"
    by blast
  have cnt: "count d' = count dA + count dB"
    using arg_cong [OF tx, of length] by (simp add: length_texts)
  from Errata_clear_total [OF pb1]
  obtain s2 where cl: "Errata_clear b s1 = Inr s2" and pb2: "pointee s2 b = Inr None"
    by blast
  from Errata_clear_frame [OF cl ne na1]
  have pa2: "pointee s2 a = pointee s1 a"
    and tr2: "sink_calls (trace s2) = sink_calls (trace s1)" by simp_all
  have nm: "Errata_note_move a b s = Inr s2"
    using nc cl by (simp add: Errata_note_move_def)
  have "slot_of s2 b = Live None"
    using pb2 by (auto simp: pointee_def split: slot.splits option.splits)
  then have dt: "Errata_dtor b s2 = Inr (s2\<lparr>handles := (handles s2)[b := Dead]\<rparr>)"
    by (rule Errata_dtor_null)
  have e: "Errata_empty None \<and> count None = 0"
    by (simp add: Errata_empty_def count_def)
  show ?thesis
    using nc pa1 tx cnt pb1 nm pa2 pb2 tr1 tr2 dt e by simp
qed

lemma store_pair_facts:
  "owns_uniquely store_pair 1" "pointee store_pair 1 = Inr (Some block_low)"
  "pointee store_pair 0 = Inr (Some block_bad)" "\<not> aliased store_pair 1 0"
  "texts (Some block_low) = [''ok'']" "texts (Some block_bad) = [''bad'']"
  by (simp_all add: owns_uniquely_def pointee_def aliased_def store_pair_def slot_of_def
      block_def block_low_def block_bad_def note_bad_def texts_in_arena_def span_ok_def
      texts_def arena_view_def arena_block_def)

theorem note_merges_annotations_witness:
  "owns_uniquely store_pair 1 \<and> pointee store_pair 1 = Inr (Some block_low)
   \<and> pointee store_pair 0 = Inr (Some block_bad) \<and> (1 :: nat) \<noteq> 0
   \<and> \<not> aliased store_pair 1 0
   \<and> (\<exists>s' d'. Errata_note_move 1 0 store_pair = Inr s' \<and> pointee s' 1 = Inr d'
         \<and> count d' = 2 \<and> texts d' = [''bad'', ''ok''] \<and> pointee s' 0 = Inr None
         \<and> sink_calls (trace s') = [])"
proof -
  have n: "(1 :: nat) \<noteq> 0" by simp
  have c: "count (Some block_low) = 1" "count (Some block_bad) = 1"
    "sink_calls (trace store_pair) = []"
    by (simp_all add: count_def block_low_def block_bad_def store_pair_def)
  show ?thesis
    using store_pair_facts c
      note_merges_annotations [OF store_pair_facts(1) store_pair_facts(2)
        store_pair_facts(3) n store_pair_facts(4)]
    by (auto simp: numeral_2_eq_2)
qed

subsection \<open>The invariant of the counters\<close>

lemma counts_ok_iff:
  "counts_ok s = (\<forall>p D. block s p = Some D \<longrightarrow>
       sint (ref_count D) = int (handle_count s p) \<and> 1 \<le> sint (ref_count D))"
  by (auto simp: counts_ok_def list_all_iff block_def split: option.splits)

lemma no_dangling_iff:
  "no_dangling s = (\<forall>h p. slot_of s h = Live (Some p) \<longrightarrow> block s p \<noteq> None)"
proof
  assume nd: "no_dangling s"
  show "\<forall>h p. slot_of s h = Live (Some p) \<longrightarrow> block s p \<noteq> None"
  proof (intro allI impI)
    fix h p assume a: "slot_of s h = Live (Some p)"
    then have "h < length (handles s)" by (rule slot_Live_less)
    then have "handles s ! h \<in> set (handles s)" by simp
    moreover have "handles s ! h = Live (Some p)" using a by (simp add: slot_of_def split: if_splits)
    ultimately have "Live (Some p) \<in> set (handles s)" by simp
    with nd show "block s p \<noteq> None"
      by (auto simp: no_dangling_def list_all_iff)
  qed
next
  assume r: "\<forall>h p. slot_of s h = Live (Some p) \<longrightarrow> block s p \<noteq> None"
  show "no_dangling s"
    unfolding no_dangling_def list_all_iff
  proof
    fix sl assume "sl \<in> set (handles s)"
    then obtain h where h: "h < length (handles s)" "handles s ! h = sl"
      by (auto simp: in_set_conv_nth)
    then have "slot_of s h = sl" by (simp add: slot_of_def)
    with r show "case sl of Dead \<Rightarrow> True | Live None \<Rightarrow> True
                 | Live (Some p) \<Rightarrow> block s p \<noteq> None"
      by (auto split: slot.splits option.splits)
  qed
qed

lemma finalized_once_iff:
  "finalized_once s = (distinct (destroyed (trace s))
      \<and> (\<forall>p \<in> set (destroyed (trace s)). block s p = None \<and> p < length (heap s)))"
  by (auto simp: finalized_once_def list_all_iff)

lemma count_list_update:
  "i < length xs \<Longrightarrow>
   int (count_list (xs[i := y]) x)
     = int (count_list xs x) - (if xs ! i = x then 1 else 0) + (if y = x then 1 else 0)"
proof (induction xs arbitrary: i)
  case Nil
  then show ?case by simp
next
  case (Cons a xs)
  show ?case
  proof (cases i)
    case 0
    then show ?thesis by simp
  next
    case (Suc n)
    with Cons.prems have "n < length xs" by simp
    from Cons.IH [OF this] show ?thesis using Suc by (auto split: if_splits)
  qed
qed

lemma count_list_nth_pos: "i < length xs \<Longrightarrow> 1 \<le> count_list xs (xs ! i)"
proof -
  assume "i < length xs"
  then have "count_list xs (xs ! i) \<noteq> 0" by (simp add: count_list_0_iff)
  then show ?thesis by simp
qed

lemma count_list_two:
  assumes i: "i < length xs" and j: "j < length xs" and ne: "i \<noteq> j"
    and xi: "xs ! i = x" and xj: "xs ! j = x" and y: "y \<noteq> x"
  shows "2 \<le> count_list xs x"
proof -
  have a: "int (count_list (xs[i := y]) x) = int (count_list xs x) - 1"
    using count_list_update [OF i, of y x] xi y by simp
  have "(xs[i := y]) ! j = x" using ne xj by simp
  moreover have "j < length (xs[i := y])" using j by simp
  ultimately have "1 \<le> count_list (xs[i := y]) x"
    using count_list_nth_pos [of j "xs[i := y]"] by simp
  with a show ?thesis by simp
qed

lemma handle_count_append:
  "handle_count (s\<lparr>handles := handles s @ [x]\<rparr>) p
     = handle_count s p + (if x = Live (Some p) then 1 else 0)"
  by (simp add: handle_count_def)

lemma handle_count_update:
  "h < length (handles s) \<Longrightarrow>
   int (handle_count (s\<lparr>handles := (handles s)[h := x]\<rparr>) p)
     = int (handle_count s p) - (if slot_of s h = Live (Some p) then 1 else 0)
         + (if x = Live (Some p) then 1 else 0)"
  by (simp add: handle_count_def slot_of_def count_list_update)

lemma handle_count_set_data:
  "h < length (handles s) \<Longrightarrow>
   int (handle_count (set_data h d s) p)
     = int (handle_count s p) - (if slot_of s h = Live (Some p) then 1 else 0)
         + (if d = Some p then 1 else 0)"
  using handle_count_update [of h s "Live d" p] by (simp add: set_data_def)

lemma handle_count_set_block [simp]: "handle_count (set_block p D s) q = handle_count s q"
  by (simp add: handle_count_def set_block_def)

lemma handle_count_heap [simp]: "handle_count (s\<lparr>heap := hp\<rparr>) q = handle_count s q"
  by (simp add: handle_count_def)

lemma handle_count_trace [simp]: "handle_count (s\<lparr>trace := t\<rparr>) q = handle_count s q"
  by (simp add: handle_count_def)

lemma handle_count_pos:
  "slot_of s h = Live (Some p) \<Longrightarrow> 1 \<le> handle_count s p"
  using count_list_nth_pos [of h "handles s"]
  by (auto simp: handle_count_def slot_of_def split: if_splits)

lemma sole_handle:
  assumes "handle_count s p = 1" "slot_of s h = Live (Some p)" "slot_of s k = Live (Some p)"
  shows "k = h"
proof (rule ccontr)
  assume ne: "k \<noteq> h"
  have "2 \<le> count_list (handles s) (Live (Some p))"
    by (rule count_list_two [of k _ h _ Dead])
      (use assms ne in \<open>auto simp: slot_of_def split: if_splits\<close>)
  with assms(1) show False by (simp add: handle_count_def)
qed

lemma InvI:
  assumes "\<And>p D. block s p = Some D \<Longrightarrow> sint (ref_count D) = int (handle_count s p)"
    and "\<And>p D. block s p = Some D \<Longrightarrow> 1 \<le> sint (ref_count D)"
    and "\<And>h p. slot_of s h = Live (Some p) \<Longrightarrow> block s p \<noteq> None"
    and "distinct (destroyed (trace s))"
    and "\<And>p. p \<in> set (destroyed (trace s)) \<Longrightarrow> block s p = None"
    and "\<And>p. p \<in> set (destroyed (trace s)) \<Longrightarrow> p < length (heap s)"
  shows "Inv s"
  using assms
  unfolding Inv_def counts_ok_iff no_dangling_iff finalized_once_iff by blast

lemma InvD:
  assumes "Inv s"
  shows "block s p = Some D \<Longrightarrow> sint (ref_count D) = int (handle_count s p)"
    and "block s p = Some D \<Longrightarrow> 1 \<le> sint (ref_count D)"
    and "slot_of s h = Live (Some p) \<Longrightarrow> block s p \<noteq> None"
    and "distinct (destroyed (trace s))"
    and "p \<in> set (destroyed (trace s)) \<Longrightarrow> block s p = None"
    and "p \<in> set (destroyed (trace s)) \<Longrightarrow> p < length (heap s)"
  using assms
  unfolding Inv_def counts_ok_iff no_dangling_iff finalized_once_iff by blast+

lemma slot_of_append:
  "slot_of (s\<lparr>handles := handles s @ [x]\<rparr>) k
     = (if k = length (handles s) then x else slot_of s k)"
  by (auto simp: slot_of_def nth_append)

lemma slot_of_update:
  "slot_of (s\<lparr>handles := (handles s)[h := x]\<rparr>) k
     = (if k = h \<and> h < length (handles s) then x else slot_of s k)"
  by (auto simp: slot_of_def)

lemma Inv_append_null:
  assumes i: "Inv s"
  shows "Inv (s\<lparr>handles := handles s @ [Live None]\<rparr>)" (is "Inv ?s'")
proof (rule InvI)
  have C: "handle_count ?s' p = handle_count s p" for p
    by (simp add: handle_count_append)
  fix p D
  show "block ?s' p = Some D \<Longrightarrow> sint (ref_count D) = int (handle_count ?s' p)"
    using InvD(1) [OF i] by (simp add: C)
  show "block ?s' p = Some D \<Longrightarrow> 1 \<le> sint (ref_count D)"
    using InvD(2) [OF i] by simp
  show "slot_of ?s' h = Live (Some p) \<Longrightarrow> block ?s' p \<noteq> None" for h
    using InvD(3) [OF i, of h p] by (simp add: slot_of_append split: if_splits)
  show "distinct (destroyed (trace ?s'))" using InvD(4) [OF i] by simp
  show "p \<in> set (destroyed (trace ?s')) \<Longrightarrow> block ?s' p = None"
    using InvD(5) [OF i] by simp
  show "p \<in> set (destroyed (trace ?s')) \<Longrightarrow> p < length (heap ?s')"
    using InvD(6) [OF i] by simp
qed

lemma Inv_set_block:
  assumes i: "Inv s" and b: "block s p = Some D" and r: "ref_count D' = ref_count D"
  shows "Inv (set_block p D' s)" (is "Inv ?s'")
proof (rule InvI)
  have pl: "p < length (heap s)" using b by (rule block_Some_less)
  have B: "block ?s' q = (if q = p then Some D' else block s q)" for q
    using pl by simp
  fix q E
  show "block ?s' q = Some E \<Longrightarrow> sint (ref_count E) = int (handle_count ?s' q)"
    using InvD(1) [OF i, of q] InvD(1) [OF i b] r by (auto simp: B split: if_splits)
  show "block ?s' q = Some E \<Longrightarrow> 1 \<le> sint (ref_count E)"
    using InvD(2) [OF i, of q] InvD(2) [OF i b] r by (auto simp: B split: if_splits)
  show "slot_of ?s' h = Live (Some q) \<Longrightarrow> block ?s' q \<noteq> None" for h
    using InvD(3) [OF i, of h q] by (simp add: B)
  show "distinct (destroyed (trace ?s'))" using InvD(4) [OF i] by simp
  show "q \<in> set (destroyed (trace ?s')) \<Longrightarrow> block ?s' q = None"
    using InvD(5) [OF i, of q] b by (auto simp: B)
  show "q \<in> set (destroyed (trace ?s')) \<Longrightarrow> q < length (heap ?s')"
    using InvD(6) [OF i, of q] by (simp add: set_block_def)
qed

lemma block_Sink_List [simp]: "block (s\<lparr>Sink_List := fs\<rparr>) p = block s p"
  by (simp add: block_def)

lemma slot_of_Sink_List [simp]: "slot_of (s\<lparr>Sink_List := fs\<rparr>) h = slot_of s h"
  by (simp add: slot_of_def)

lemma handle_count_Sink_List [simp]: "handle_count (s\<lparr>Sink_List := fs\<rparr>) p = handle_count s p"
  by (simp add: handle_count_def)

lemma Inv_register:
  assumes i: "Inv s"
  shows "Inv (register_sink f s)" (is "Inv ?s'")
proof (rule InvI)
  fix p D
  show "block ?s' p = Some D \<Longrightarrow> sint (ref_count D) = int (handle_count ?s' p)"
    using InvD(1) [OF i] by (simp add: register_sink_def)
  show "block ?s' p = Some D \<Longrightarrow> 1 \<le> sint (ref_count D)"
    using InvD(2) [OF i] by (simp add: register_sink_def)
  show "slot_of ?s' h = Live (Some p) \<Longrightarrow> block ?s' p \<noteq> None" for h
    using InvD(3) [OF i, of h p] by (simp add: register_sink_def)
  show "distinct (destroyed (trace ?s'))" using InvD(4) [OF i] by (simp add: register_sink_def)
  show "p \<in> set (destroyed (trace ?s')) \<Longrightarrow> block ?s' p = None"
    using InvD(5) [OF i] by (simp add: register_sink_def)
  show "p \<in> set (destroyed (trace ?s')) \<Longrightarrow> p < length (heap ?s')"
    using InvD(6) [OF i] by (simp add: register_sink_def)
qed

lemma Inv_copy:
  assumes i: "Inv s" and t: "slot_of s that = Live (Some p)" and b: "block s p = Some D"
    and n: "handle_count s p < 2147483647"
  shows "Inv (set_block p (D\<lparr>ref_count := ref_count D + 1\<rparr>)
                (s\<lparr>handles := handles s @ [Live (Some p)]\<rparr>))" (is "Inv ?s'")
proof (rule InvI)
  have pl: "p < length (heap s)" using b by (rule block_Some_less)
  have inc: "sint (ref_count D + 1) = sint (ref_count D) + 1"
    using InvD(1) [OF i b] n by (intro sint_succ) simp
  have B: "block ?s' q = (if q = p then Some (D\<lparr>ref_count := ref_count D + 1\<rparr>) else block s q)"
    for q using pl by simp
  fix q E
  show "block ?s' q = Some E \<Longrightarrow> sint (ref_count E) = int (handle_count ?s' q)"
    using InvD(1) [OF i, of q] InvD(1) [OF i b] pl inc
    by (auto simp: handle_count_append split: if_splits)
  show "block ?s' q = Some E \<Longrightarrow> 1 \<le> sint (ref_count E)"
    using InvD(2) [OF i, of q] InvD(2) [OF i b] pl inc by (auto split: if_splits)
  show "slot_of ?s' h = Live (Some q) \<Longrightarrow> block ?s' q \<noteq> None" for h
    using InvD(3) [OF i, of h q] pl b by (auto simp: slot_of_append split: if_splits)
  show "distinct (destroyed (trace ?s'))" using InvD(4) [OF i] by (simp add: set_block_def)
  show "q \<in> set (destroyed (trace ?s')) \<Longrightarrow> block ?s' q = None"
    using InvD(5) [OF i, of q] b pl by auto
  show "q \<in> set (destroyed (trace ?s')) \<Longrightarrow> q < length (heap ?s')"
    using InvD(6) [OF i, of q] by (simp add: set_block_def)
qed

lemma Inv_dead:
  assumes i: "Inv s" and h: "slot_of s h = Live None"
  shows "Inv (s\<lparr>handles := (handles s)[h := Dead]\<rparr>)" (is "Inv ?s'")
proof (rule InvI)
  have hl: "h < length (handles s)" using h by (rule slot_Live_less)
  have C: "handle_count ?s' p = handle_count s p" for p
    using handle_count_update [OF hl, of Dead p] h by simp
  fix p D
  show "block ?s' p = Some D \<Longrightarrow> sint (ref_count D) = int (handle_count ?s' p)"
    using InvD(1) [OF i] by (simp add: C)
  show "block ?s' p = Some D \<Longrightarrow> 1 \<le> sint (ref_count D)"
    using InvD(2) [OF i] by simp
  show "slot_of ?s' k = Live (Some p) \<Longrightarrow> block ?s' p \<noteq> None" for k
    using InvD(3) [OF i, of k p] by (simp add: slot_of_update split: if_splits)
  show "distinct (destroyed (trace ?s'))" using InvD(4) [OF i] by simp
  show "p \<in> set (destroyed (trace ?s')) \<Longrightarrow> block ?s' p = None"
    using InvD(5) [OF i] by simp
  show "p \<in> set (destroyed (trace ?s')) \<Longrightarrow> p < length (heap ?s')"
    using InvD(6) [OF i] by simp
qed

lemma heap_set_data [simp]: "heap (set_data h d s) = heap s"
  by (simp add: set_data_def)

lemma length_handles_set_data [simp]: "length (handles (set_data h d s)) = length (handles s)"
  by (simp add: set_data_def)

lemma Inv_swap:
  assumes i: "Inv s" and a: "slot_of s a = Live None" and b: "slot_of s b = Live d"
  shows "Inv (set_data b None (set_data a d s))" (is "Inv ?s'")
proof (rule InvI)
  have al: "a < length (handles s)" using a by (rule slot_Live_less)
  have bl: "b < length (handles s)" using b by (rule slot_Live_less)
  have bl': "b < length (handles (set_data a d s))" using bl by simp
  have ab: "a \<noteq> b \<or> d = None" using a b by auto
  have C: "handle_count ?s' p = handle_count s p" for p
  proof -
    have "int (handle_count ?s' p) = int (handle_count s p)"
      using handle_count_set_data [OF bl', of None p] handle_count_set_data [OF al, of d p]
        a b ab al
      by (auto split: if_splits)
    then show ?thesis by simp
  qed
  have S: "slot_of ?s' k = Live (Some p) \<Longrightarrow> \<exists>k'. slot_of s k' = Live (Some p)" for k p
    using a b al bl by (auto split: if_splits)
  fix p D
  show "block ?s' p = Some D \<Longrightarrow> sint (ref_count D) = int (handle_count ?s' p)"
    using InvD(1) [OF i] by (simp add: C)
  show "block ?s' p = Some D \<Longrightarrow> 1 \<le> sint (ref_count D)"
    using InvD(2) [OF i] by simp
  show "slot_of ?s' k = Live (Some p) \<Longrightarrow> block ?s' p \<noteq> None" for k
    using S [of k p] InvD(3) [OF i] by auto
  show "distinct (destroyed (trace ?s'))" using InvD(4) [OF i] by simp
  show "p \<in> set (destroyed (trace ?s')) \<Longrightarrow> block ?s' p = None"
    using InvD(5) [OF i] by simp
  show "p \<in> set (destroyed (trace ?s')) \<Longrightarrow> p < length (heap ?s')"
    using InvD(6) [OF i] by simp
qed

lemma Inv_move:
  assumes i: "Inv s" and t: "slot_of s that = Live d"
  shows "Inv (s\<lparr>handles := (handles s)[that := Live None] @ [Live d]\<rparr>)"
proof -
  let ?s1 = "s\<lparr>handles := handles s @ [Live None]\<rparr>"
  have tl: "that < length (handles s)" using t by (rule slot_Live_less)
  have i1: "Inv ?s1" using i by (rule Inv_append_null)
  have "Inv (set_data that None (set_data (length (handles s)) d ?s1))"
    by (rule Inv_swap [OF i1]) (use t tl in \<open>simp_all add: slot_of_append\<close>)
  moreover have "set_data that None (set_data (length (handles s)) d ?s1)
      = s\<lparr>handles := (handles s)[that := Live None] @ [Live d]\<rparr>"
    using tl by (simp add: set_data_def list_update_append1)
  ultimately show ?thesis by simp
qed

lemma handle_count_none:
  assumes i: "Inv s"
  shows "handle_count s (length (heap s)) = 0"
proof (rule ccontr)
  assume "handle_count s (length (heap s)) \<noteq> 0"
  then have "Live (Some (length (heap s))) \<in> set (handles s)"
    by (simp add: handle_count_def count_list_0_iff)
  then obtain k where "k < length (handles s)" "handles s ! k = Live (Some (length (heap s)))"
    by (auto simp: in_set_conv_nth)
  then have "slot_of s k = Live (Some (length (heap s)))" by (simp add: slot_of_def)
  with InvD(3) [OF i] have "block s (length (heap s)) \<noteq> None" by blast
  then show False by (simp add: block_def)
qed

lemma Inv_data:
  assumes i: "Inv s" and h: "slot_of s h = Live None" and r: "ref_count D0 = 1"
  shows "Inv (set_data h (Some (length (heap s))) (s\<lparr>heap := heap s @ [Some D0]\<rparr>))"
    (is "Inv ?s'")
proof (rule InvI)
  let ?p = "length (heap s)"
  let ?s1 = "s\<lparr>heap := heap s @ [Some D0]\<rparr>"
  have hl: "h < length (handles ?s1)" using h by (simp add: slot_Live_less)
  have h1: "slot_of ?s1 h = Live None" using h by simp
  have C: "int (handle_count ?s' q) = int (handle_count s q) + (if q = ?p then 1 else 0)" for q
    using handle_count_set_data [OF hl, of "Some ?p" q] h1 by auto
  have B: "block ?s1 q = (if q = ?p then Some D0 else block s q)" for q
    by (simp add: block_heap_append)
  fix q E
  show "block ?s' q = Some E \<Longrightarrow> sint (ref_count E) = int (handle_count ?s' q)"
    using InvD(1) [OF i, of q] r handle_count_none [OF i] by (auto simp: B C split: if_splits)
  show "block ?s' q = Some E \<Longrightarrow> 1 \<le> sint (ref_count E)"
    using InvD(2) [OF i, of q] r by (auto simp: B split: if_splits)
  show "slot_of ?s' k = Live (Some q) \<Longrightarrow> block ?s' q \<noteq> None" for k
    using InvD(3) [OF i, of k q] by (auto simp: B split: if_splits)
  show "distinct (destroyed (trace ?s'))" using InvD(4) [OF i] by simp
  show "q \<in> set (destroyed (trace ?s')) \<Longrightarrow> block ?s' q = None"
    using InvD(5) [OF i, of q] InvD(6) [OF i, of q] by (auto simp: B)
  show "q \<in> set (destroyed (trace ?s')) \<Longrightarrow> q < length (heap ?s')"
    using InvD(6) [OF i, of q] by simp
qed

lemma Inv_release:
  assumes i: "Inv s" and r: "release h s = Inr s'"
  shows "Inv s'"
proof (cases "slot_of s h")
  case Dead
  with r show ?thesis by (simp add: release_def)
next
  case (Live d)
  show ?thesis
  proof (cases d)
    case None
    with Live r i show ?thesis by (simp add: release_def)
  next
    case (Some p)
    with Live have h: "slot_of s h = Live (Some p)" by simp
    from InvD(3) [OF i h] obtain D where b: "block s p = Some D" by auto
    have pl: "p < length (heap s)" using b by (rule block_Some_less)
    have hl: "h < length (handles s)" using h by (rule slot_Live_less)
    have rc: "sint (ref_count D) = int (handle_count s p)" using InvD(1) [OF i b] .
    show ?thesis
    proof (cases "ref_count D = 1")
      case True
      let ?ev = "(if d_notes D = [] then []
                  else map (\<lambda>f. Sink_call f (erratum_view D)) (Sink_List s))"
      let ?s0 = "s\<lparr>heap := (heap s)[p := None], trace := trace s @ ?ev @ [Data_destroyed p]\<rparr>"
      have s': "s' = set_data h None ?s0"
        using r release_last [OF h b True] by simp
      have hl0: "h < length (handles ?s0)" using hl by simp
      have h0: "slot_of ?s0 h = Live (Some p)" using h by simp
      have C: "int (handle_count s' q) = int (handle_count s q) - (if q = p then 1 else 0)" for q
        using handle_count_set_data [OF hl0, of None q] h0
        by (auto simp: s' handle_count_def)
      have B: "block s' q = (if q = p then None else block s q)" for q
        by (auto simp: s' block_def)
      have S: "slot_of s' k = (if k = h then Live None else slot_of s k)" for k
        using hl by (simp add: s' slot_of_def set_data_def)
      have T: "destroyed (trace s') = destroyed (trace s) @ [p]"
        by (simp add: s' destroyed_append destroyed_map)
      have L: "length (heap s') = length (heap s)" by (simp add: s')
      have one: "handle_count s p = 1" using rc True by simp
      have np: "p \<notin> set (destroyed (trace s))"
        using InvD(5) [OF i, of p] b by auto
      show ?thesis
      proof (rule InvI)
        fix q E
        show "block s' q = Some E \<Longrightarrow> sint (ref_count E) = int (handle_count s' q)"
          using InvD(1) [OF i, of q E] by (auto simp: B C split: if_splits)
        show "block s' q = Some E \<Longrightarrow> 1 \<le> sint (ref_count E)"
          using InvD(2) [OF i, of q E] by (auto simp: B split: if_splits)
        show "slot_of s' k = Live (Some q) \<Longrightarrow> block s' q \<noteq> None" for k
          using InvD(3) [OF i, of k q] sole_handle [OF one h, of k]
          by (auto simp: B S split: if_splits)
        show "distinct (destroyed (trace s'))"
          using InvD(4) [OF i] np by (simp add: T)
        show "q \<in> set (destroyed (trace s')) \<Longrightarrow> block s' q = None"
          using InvD(5) [OF i, of q] by (auto simp: B T)
        show "q \<in> set (destroyed (trace s')) \<Longrightarrow> q < length (heap s')"
          using InvD(6) [OF i, of q] pl by (auto simp: L T)
      qed
    next
      case False
      let ?D1 = "D\<lparr>ref_count := ref_count D - 1\<rparr>"
      let ?s0 = "set_block p ?D1 s"
      have s': "s' = set_data h None ?s0"
        using r release_shared [OF h b False] by simp
      have hl0: "h < length (handles ?s0)" using hl by (simp add: set_block_def)
      have h0: "slot_of ?s0 h = Live (Some p)" using h by simp
      have C: "int (handle_count s' q) = int (handle_count s q) - (if q = p then 1 else 0)" for q
        using handle_count_set_data [OF hl0, of None q] h0
        by (auto simp: s')
      have B: "block s' q = (if q = p then Some ?D1 else block s q)" for q
        using pl by (simp add: s')
      have S: "slot_of s' k = (if k = h then Live None else slot_of s k)" for k
        using hl by (simp add: s' set_block_def)
      have T: "trace s' = trace s" by (simp add: s')
      have L: "length (heap s') = length (heap s)" by (simp add: s' set_block_def)
      have two: "2 \<le> sint (ref_count D)"
        using InvD(2) [OF i b] False sint_eq_1 [of "ref_count D"] by linarith
      have dec: "sint (ref_count D - 1) = sint (ref_count D) - 1"
        using two by (intro sint_pred) simp
      show ?thesis
      proof (rule InvI)
        fix q E
        show "block s' q = Some E \<Longrightarrow> sint (ref_count E) = int (handle_count s' q)"
          using InvD(1) [OF i, of q E] rc dec by (auto simp: B C split: if_splits)
        show "block s' q = Some E \<Longrightarrow> 1 \<le> sint (ref_count E)"
          using InvD(2) [OF i, of q E] two dec by (auto simp: B split: if_splits)
        show "slot_of s' k = Live (Some q) \<Longrightarrow> block s' q \<noteq> None" for k
          using InvD(3) [OF i, of k q] by (auto simp: B S split: if_splits)
        show "distinct (destroyed (trace s'))"
          using InvD(4) [OF i] by (simp add: T)
        show "q \<in> set (destroyed (trace s')) \<Longrightarrow> block s' q = None"
          using InvD(5) [OF i, of q] b by (auto simp: B T)
        show "q \<in> set (destroyed (trace s')) \<Longrightarrow> q < length (heap s')"
          using InvD(6) [OF i, of q] by (auto simp: L T)
      qed
    qed
  qed
qed

subsection \<open>Every operation keeps the invariant\<close>

lemma Inv_dtor:
  assumes i: "Inv s" and d: "Errata_dtor h s = Inr s'"
  shows "Inv s'"
proof -
  from d obtain s1 where r: "release h s = Inr s1"
    and s': "s' = s1\<lparr>handles := (handles s1)[h := Dead]\<rparr>"
    by (auto simp: Errata_dtor_def split: sum.splits)
  have "Inv s1" using i r by (rule Inv_release)
  moreover have "slot_of s1 h = Live None" using r by (rule release_slot)
  ultimately show ?thesis unfolding s' by (rule Inv_dead)
qed

lemma Inv_move_assign:
  assumes i: "Inv s" and m: "Errata_move_assign this that s = Inr s'"
  shows "Inv s'"
proof (cases "this = that")
  case True
  with m i show ?thesis by (simp add: Errata_move_assign_def split: slot.splits)
next
  case False
  with m obtain s1 where r: "release this s = Inr s1" and sw: "swap_data this that s1 = Inr s'"
    by (auto simp: Errata_move_assign_def split: sum.splits)
  have i1: "Inv s1" using i r by (rule Inv_release)
  have a: "slot_of s1 this = Live None" using r by (rule release_slot)
  from sw obtain d where b: "slot_of s1 that = Live d"
    by (auto simp: swap_data_def split: slot.splits)
  have "s' = set_data that None (set_data this d s1)"
    using sw swap_data_live [OF a b] by simp
  then show ?thesis using Inv_swap [OF i1 a b] by simp
qed

lemma Inv_clear:
  assumes i: "Inv s" and c: "Errata_clear h s = Inr s'"
  shows "Inv s'"
proof (cases "slot_of s h")
  case Dead
  with c show ?thesis by (simp add: Errata_clear_def)
next
  case (Live d)
  show ?thesis
  proof (cases d)
    case None
    with Live c i show ?thesis by (simp add: Errata_clear_def)
  next
    case (Some p)
    with Live c obtain D where b: "block s p = Some D"
      by (cases "block s p") (auto simp: Errata_clear_def)
    have r: "release h (set_block p (D\<lparr>d_notes := []\<rparr>) s) = Inr s'"
      using c Live Some b by (simp add: Errata_clear_def)
    have "Inv (set_block p (D\<lparr>d_notes := []\<rparr>) s)"
      using i b by (rule Inv_set_block) simp
    then show ?thesis using r by (rule Inv_release)
  qed
qed

lemma Inv_writeable:
  assumes i: "Inv s" and w: "writeable_data h s = Inr (p, s1)"
  shows "Inv s1"
proof (cases "slot_of s h = Live None")
  case True
  with w have "s1 = set_data h (Some (length (heap s)))
      (s\<lparr>heap := heap s @ [Some \<lparr>ref_count = 1, d_notes = [], arena = new_arena (arena_size s),
                    d_level = 0, d_severity = DEFAULT_SEVERITY\<rparr>]\<rparr>)"
    by (auto simp: writeable_data_def data_def Let_def)
  then show ?thesis using Inv_data [OF i True] by simp
next
  case False
  with w have "s1 = s"
    by (auto simp: writeable_data_def split: slot.splits option.splits if_splits)
  with i show ?thesis by simp
qed

lemma Inv_note:
  assumes i: "Inv s" and n: "Errata_note h sev txt s = Inr s'"
  shows "Inv s'"
proof -
  from n obtain p s1 where w: "writeable_data h s = Inr (p, s1)"
    by (auto simp: Errata_note_def split: sum.splits)
  from writeable_dataD [OF w] obtain D where b: "block s1 p = Some D" by auto
  have i1: "Inv s1" using i w by (rule Inv_writeable)
  have "s' = set_block p (push_note sev (fst (Data_localize txt D)) (snd (Data_localize txt D))) s1"
    using n Errata_note_writeable [OF w b] by simp
  moreover have "ref_count (push_note sev (fst (Data_localize txt D)) (snd (Data_localize txt D)))
      = ref_count D"
    by (simp add: push_note_def Data_localize_def split: prod.splits)
  ultimately show ?thesis using Inv_set_block [OF i1 b] by simp
qed

lemma Inv_note_v:
  assumes i: "Inv s" and n: "note_v render h sev fmt args s = Inr s'"
  shows "Inv s'"
proof -
  from n obtain p s1 where w: "writeable_data h s = Inr (p, s1)"
    by (auto simp: note_v_def split: sum.splits)
  from writeable_dataD [OF w] obtain D where b: "block s1 p = Some D" by auto
  have i1: "Inv s1" using i w by (rule Inv_writeable)
  have "s' = set_block p (push_note sev (fst (spec_render_into (render fmt args) (arena D)))
                     (D\<lparr>arena := snd (spec_render_into (render fmt args) (arena D))\<rparr>)) s1"
    using n note_v_writeable [OF w b, of render sev fmt args] by simp
  moreover have "ref_count (push_note sev (fst (spec_render_into (render fmt args) (arena D)))
                     (D\<lparr>arena := snd (spec_render_into (render fmt args) (arena D))\<rparr>))
      = ref_count D"
    by (simp add: push_note_def)
  ultimately show ?thesis using Inv_set_block [OF i1 b] by simp
qed

lemma Inv_note_each:
  "Inv s \<Longrightarrow> note_each h ms s = Inr s' \<Longrightarrow> Inv s'"
proof (induction ms arbitrary: s)
  case Nil
  then show ?case by simp
next
  case (Cons m ms)
  from Cons.prems(2) obtain s1 where n: "Errata_note h (fst m) (snd m) s = Inr s1"
    and r: "note_each h ms s1 = Inr s'"
    by (auto split: sum.splits)
  have "Inv s1" using Cons.prems(1) n by (rule Inv_note)
  then show ?case using r by (rule Cons.IH)
qed

lemma Inv_note_copy:
  assumes i: "Inv s" and n: "Errata_note_copy a b s = Inr s'"
  shows "Inv s'"
proof -
  from n have "s' = s \<or> (\<exists>ms. note_each a ms s = Inr s')"
    by (auto simp: Errata_note_copy_def split: slot.splits sum.splits option.splits)
  then show ?thesis using i Inv_note_each by blast
qed

lemma Inv_note_move:
  assumes i: "Inv s" and n: "Errata_note_move a b s = Inr s'"
  shows "Inv s'"
proof -
  from n obtain s1 where c: "Errata_note_copy a b s = Inr s1" and cl: "Errata_clear b s1 = Inr s'"
    by (auto simp: Errata_note_move_def split: sum.splits)
  have "Inv s1" using i c by (rule Inv_note_copy)
  then show ?thesis using cl by (rule Inv_clear)
qed

lemma Errata_copy_live:
  assumes t: "slot_of s that = Live (Some p)" and b: "block s p = Some D"
  shows "Errata_copy that s =
     Inr (length (handles s),
          set_block p (D\<lparr>ref_count := ref_count D + 1\<rparr>)
            (s\<lparr>handles := handles s @ [Live (Some p)]\<rparr>))"
  using t b by (simp add: Errata_copy_def Let_def)

lemma Errata_copy_null:
  assumes t: "slot_of s that = Live None"
  shows "Errata_copy that s = Inr (length (handles s), s\<lparr>handles := handles s @ [Live None]\<rparr>)"
  using t by (simp add: Errata_copy_def Let_def)

lemma handle_count_le: "handle_count s p \<le> length (handles s)"
  by (simp add: handle_count_def count_le_length)

lemma Inv_Errata_copy:
  assumes i: "Inv s" and c: "Errata_copy that s = Inr (this, s')"
    and n: "length (handles s) < 2147483647"
  shows "Inv s'"
proof (cases "slot_of s that")
  case Dead
  with c show ?thesis by (simp add: Errata_copy_def)
next
  case (Live d)
  show ?thesis
  proof (cases d)
    case None
    with Live c have "s' = s\<lparr>handles := handles s @ [Live None]\<rparr>"
      using Errata_copy_null [of s that] by simp
    then show ?thesis using Inv_append_null [OF i] by simp
  next
    case (Some p)
    with Live have t: "slot_of s that = Live (Some p)" by simp
    from InvD(3) [OF i t] obtain D where b: "block s p = Some D" by auto
    have "s' = set_block p (D\<lparr>ref_count := ref_count D + 1\<rparr>)
            (s\<lparr>handles := handles s @ [Live (Some p)]\<rparr>)"
      using c Errata_copy_live [OF t b] by simp
    moreover have "handle_count s p < 2147483647"
      using handle_count_le [of s p] n by simp
    ultimately show ?thesis using Inv_copy [OF i t b] by simp
  qed
qed

lemma Inv_Errata_move:
  assumes i: "Inv s" and m: "Errata_move that s = Inr (this, s')"
  shows "Inv s'"
proof (cases "slot_of s that")
  case Dead
  with m show ?thesis by (simp add: Errata_move_def)
next
  case (Live d)
  from m Errata_move_live [OF Live]
  have "s' = s\<lparr>handles := (handles s)[that := Live None] @ [Live d]\<rparr>" by simp
  then show ?thesis using Inv_move [OF i Live] by simp
qed

text \<open>An operation creates at most one object, and objects are never removed from the store.\<close>

lemma handles_set_block [simp]: "handles (set_block p D s) = handles s"
  by (simp add: set_block_def)

lemma handles_release: "release h s = Inr s' \<Longrightarrow> length (handles s') = length (handles s)"
  by (auto simp: release_def Let_def split: slot.splits option.splits if_splits)

lemma handles_dtor: "Errata_dtor h s = Inr s' \<Longrightarrow> length (handles s') = length (handles s)"
  by (auto simp: Errata_dtor_def dest: handles_release split: sum.splits)

lemma handles_clear: "Errata_clear h s = Inr s' \<Longrightarrow> length (handles s') = length (handles s)"
  by (auto simp: Errata_clear_def dest: handles_release split: slot.splits option.splits)

lemma handles_move_assign:
  "Errata_move_assign a b s = Inr s' \<Longrightarrow> length (handles s') = length (handles s)"
  by (auto simp: Errata_move_assign_def swap_data_def dest: handles_release
      split: if_splits sum.splits slot.splits)

lemma handles_writeable:
  "writeable_data h s = Inr (p, s1) \<Longrightarrow> length (handles s1) = length (handles s)"
  by (auto simp: writeable_data_def data_def Let_def split: slot.splits option.splits if_splits)

lemma handles_note:
  assumes n: "Errata_note h sev t s = Inr s'"
  shows "length (handles s') = length (handles s)"
proof -
  from n obtain p s1 where w: "writeable_data h s = Inr (p, s1)"
    by (auto simp: Errata_note_def split: sum.splits)
  from writeable_dataD [OF w] obtain D where b: "block s1 p = Some D" by auto
  have "s' = set_block p (push_note sev (fst (Data_localize t D)) (snd (Data_localize t D))) s1"
    using n Errata_note_writeable [OF w b] by simp
  then show ?thesis using handles_writeable [OF w] by simp
qed

lemma handles_note_v:
  assumes n: "note_v render h sev fmt args s = Inr s'"
  shows "length (handles s') = length (handles s)"
proof -
  from n obtain p s1 where w: "writeable_data h s = Inr (p, s1)"
    by (auto simp: note_v_def split: sum.splits)
  from writeable_dataD [OF w] obtain D where b: "block s1 p = Some D" by auto
  have "s' = set_block p (push_note sev (fst (spec_render_into (render fmt args) (arena D)))
                     (D\<lparr>arena := snd (spec_render_into (render fmt args) (arena D))\<rparr>)) s1"
    using n note_v_writeable [OF w b, of render sev fmt args] by simp
  then show ?thesis using handles_writeable [OF w] by simp
qed

lemma handles_note_each:
  "note_each h ms s = Inr s' \<Longrightarrow> length (handles s') = length (handles s)"
proof (induction ms arbitrary: s)
  case Nil
  then show ?case by simp
next
  case (Cons m ms)
  from Cons.prems obtain s1 where n: "Errata_note h (fst m) (snd m) s = Inr s1"
    and r: "note_each h ms s1 = Inr s'"
    by (auto split: sum.splits)
  show ?case using Cons.IH [OF r] handles_note [OF n] by simp
qed

lemma handles_note_copy:
  assumes n: "Errata_note_copy a b s = Inr s'"
  shows "length (handles s') = length (handles s)"
proof -
  from n have "s' = s \<or> (\<exists>ms. note_each a ms s = Inr s')"
    by (auto simp: Errata_note_copy_def split: slot.splits sum.splits option.splits)
  then show ?thesis using handles_note_each by blast
qed

lemma handles_note_move:
  assumes n: "Errata_note_move a b s = Inr s'"
  shows "length (handles s') = length (handles s)"
proof -
  from n obtain s1 where c: "Errata_note_copy a b s = Inr s1" and cl: "Errata_clear b s1 = Inr s'"
    by (auto simp: Errata_note_move_def split: sum.splits)
  show ?thesis using handles_note_copy [OF c] handles_clear [OF cl] by simp
qed

lemma handles_copy:
  "Errata_copy b s = Inr (a, s') \<Longrightarrow> length (handles s') = Suc (length (handles s))"
  by (auto simp: Errata_copy_def Let_def split: slot.splits option.splits)

lemma handles_move:
  assumes "Errata_move b s = Inr (a, s')"
  shows "length (handles s') = Suc (length (handles s))"
proof (cases "slot_of s b")
  case Dead
  with assms show ?thesis by (simp add: Errata_move_def)
next
  case (Live d)
  from assms Errata_move_live [OF Live] show ?thesis by auto
qed

lemma handles_step:
  assumes st: "step c s = Inr s'"
  shows "length (handles s') \<le> Suc (length (handles s))"
proof (cases c)
  case Ctor
  with st show ?thesis by (auto simp: Errata_ctor_def)
next
  case (Copy b)
  with st obtain a where "Errata_copy b s = Inr (a, s')"
    by (cases "Errata_copy b s") auto
  then show ?thesis using handles_copy by simp
next
  case (Move b)
  with st obtain a where "Errata_move b s = Inr (a, s')"
    by (cases "Errata_move b s") auto
  then show ?thesis using handles_move by simp
next
  case (Move_assign a b)
  with st show ?thesis using handles_move_assign [of a b s s'] by simp
next
  case (Dtor a)
  with st show ?thesis using handles_dtor [of a s s'] by simp
next
  case (Clear a)
  with st show ?thesis using handles_clear [of a s s'] by simp
next
  case (Note a sev t)
  with st show ?thesis using handles_note [of a sev t s s'] by simp
next
  case (Note_v a sev t)
  with st show ?thesis using handles_note_v [of "\<lambda>fmt args. fmt" a sev t "()" s s'] by simp
next
  case (Note_copy a b)
  with st show ?thesis using handles_note_copy [of a b s s'] by simp
next
  case (Note_move a b)
  with st show ?thesis using handles_note_move [of a b s s'] by simp
next
  case (Register f)
  with st show ?thesis by (auto simp: register_sink_def)
qed

text \<open>
  Every operation keeps the invariant as long as the store holds fewer than \<^verbatim>\<open>INT_MAX\<close>
  objects, so that no counter can be at \<^verbatim>\<open>INT_MAX\<close> when it is incremented.
\<close>

lemma Inv_step:
  assumes i: "Inv s" and st: "step c s = Inr s'" and n: "length (handles s) < 2147483647"
  shows "Inv s'"
proof (cases c)
  case Ctor
  with st have "s' = s\<lparr>handles := handles s @ [Live None]\<rparr>" by (auto simp: Errata_ctor_def)
  then show ?thesis using Inv_append_null [OF i] by simp
next
  case (Copy b)
  with st obtain a where "Errata_copy b s = Inr (a, s')"
    by (cases "Errata_copy b s") auto
  then show ?thesis using i n Inv_Errata_copy by blast
next
  case (Move b)
  with st obtain a where "Errata_move b s = Inr (a, s')"
    by (cases "Errata_move b s") auto
  then show ?thesis using i Inv_Errata_move by blast
next
  case (Move_assign a b)
  with st i show ?thesis by (auto intro: Inv_move_assign)
next
  case (Dtor a)
  with st i show ?thesis by (auto intro: Inv_dtor)
next
  case (Clear a)
  with st i show ?thesis by (auto intro: Inv_clear)
next
  case (Note a sev t)
  with st i show ?thesis by (auto intro: Inv_note)
next
  case (Note_v a sev t)
  with st i show ?thesis by (auto intro: Inv_note_v)
next
  case (Note_copy a b)
  with st i show ?thesis by (auto intro: Inv_note_copy)
next
  case (Note_move a b)
  with st i show ?thesis by (auto intro: Inv_note_move)
next
  case (Register f)
  with st i show ?thesis by (auto intro: Inv_register)
qed

lemma Inv_run:
  "Inv s \<Longrightarrow> length (handles s) + length cs \<le> 2147483647 \<Longrightarrow> run cs s = Inr s' \<Longrightarrow> Inv s'"
proof (induction cs arbitrary: s)
  case Nil
  then show ?case by simp
next
  case (Cons c cs)
  from Cons.prems(3) obtain s1 where st: "step c s = Inr s1" and r: "run cs s1 = Inr s'"
    by (auto split: sum.splits)
  have n: "length (handles s) < 2147483647" using Cons.prems(2) by simp
  have i1: "Inv s1" using Cons.prems(1) st n by (rule Inv_step)
  have "length (handles s1) + length cs \<le> 2147483647"
    using handles_step [OF st] Cons.prems(2) by simp
  with i1 show ?case using r by (rule Cons.IH)
qed

lemma Inv_empty_store: "Inv (empty_store n)"
  by (simp add: Inv_def counts_ok_def no_dangling_def finalized_once_def empty_store_def)

subsection \<open>Counting references\<close>
















text \<open>
  C7, amended. Copy assignment is deleted, so \<^verbatim>\<open>a = b\<close> with an lvalue \<open>b\<close> is not
  available; assignment exists for rvalues only. Aliasing an lvalue is what copy construction
  does: after \<^verbatim>\<open>Errata a(b)\<close> the new handle and \<open>b\<close> point at the same block, whose
  counter has been incremented; when fewer than \<^verbatim>\<open>INT_MAX\<close> handles pointed at the block,
  the count is one higher, is at least 2 and equals the number of handles that point at it.
\<close>

theorem copy_ctor_aliases:
  assumes i: "Inv s" and t: "slot_of s b = Live (Some p)"
    and n: "handle_count s p < 2147483647"
  shows "\<exists>a s' D. Errata_copy b s = Inr (a, s') \<and> a \<noteq> b
       \<and> block s p = Some D
       \<and> slot_of s' a = Live (Some p) \<and> slot_of s' b = Live (Some p)
       \<and> block s' p = Some (D\<lparr>ref_count := ref_count D + 1\<rparr>)
       \<and> sint (ref_count D + 1) = sint (ref_count D) + 1
       \<and> sint (ref_count D + 1) = int (handle_count s' p)
       \<and> 2 \<le> sint (ref_count D + 1)
       \<and> Inv s'
       \<and> Errata_declares Copy_assign = Deleted
       \<and> Errata_declares Copy_ctor = Provided
       \<and> assignment_available Rvalue"
proof -
  from InvD(3) [OF i t] obtain D where bp: "block s p = Some D" by auto
  let ?a = "length (handles s)"
  let ?s' = "set_block p (D\<lparr>ref_count := ref_count D + 1\<rparr>)
               (s\<lparr>handles := handles s @ [Live (Some p)]\<rparr>)"
  have c: "Errata_copy b s = Inr (?a, ?s')" using t bp by (rule Errata_copy_live)
  have bl: "b < length (handles s)" using t by (rule slot_Live_less)
  have pl: "p < length (heap s)" using bp by (rule block_Some_less)
  have i': "Inv ?s'" using i t bp n by (rule Inv_copy)
  have inc: "sint (ref_count D + 1) = sint (ref_count D) + 1"
    using InvD(1) [OF i bp] n by (intro sint_succ) simp
  have b': "block ?s' p = Some (D\<lparr>ref_count := ref_count D + 1\<rparr>)" using pl by simp
  have rc: "sint (ref_count D + 1) = int (handle_count ?s' p)"
    using InvD(1) [OF i' b'] by simp
  have two: "2 \<le> sint (ref_count D + 1)" using InvD(2) [OF i bp] inc by simp
  have sl: "slot_of ?s' ?a = Live (Some p) \<and> slot_of ?s' b = Live (Some p)"
    using t bl by (simp add: slot_of_append)
  have ne: "?a \<noteq> b" using bl by simp
  have av: "assignment_available Rvalue" by (simp add: assignment_available_def)
  have dc: "Errata_declares Copy_assign = Deleted \<and> Errata_declares Copy_ctor = Provided"
    by simp
  show ?thesis
    using c ne bp sl b' inc rc two i' av dc by blast
qed

theorem copy_ctor_aliases_witness:
  "Inv store_bad \<and> slot_of store_bad 0 = Live (Some 0)
   \<and> handle_count store_bad 0 < 2147483647
   \<and> (\<exists>a s'. Errata_copy 0 store_bad = Inr (a, s') \<and> a \<noteq> 0
         \<and> slot_of s' a = Live (Some 0) \<and> slot_of s' 0 = Live (Some 0)
         \<and> block s' 0 = Some (block_bad\<lparr>ref_count := 2\<rparr>))"
proof -
  have i: "Inv store_bad"
    by (simp add: Inv_def counts_ok_def no_dangling_def finalized_once_def store_bad_def
        block_def handle_count_def block_bad_def)
  have r: "ref_count block_bad + 1 = 2" by (simp add: block_bad_def)
  have n: "handle_count store_bad 0 < 2147483647"
    by (simp add: handle_count_def store_bad_def)
  show ?thesis
    using i r n copy_ctor_aliases [OF i store_bad_facts(1) n]
    by (auto simp: store_bad_facts)
qed

lemma sole_owner_not_aliased:
  assumes i: "Inv s" and ne: "a \<noteq> b" and u: "owns_uniquely s a"
  shows "\<not> aliased s a b"
proof
  assume al: "aliased s a b"
  then obtain p where sa: "slot_of s a = Live (Some p)" and sb: "slot_of s b = Live (Some p)"
    by (auto simp: aliased_def split: slot.splits option.splits)
  from InvD(3) [OF i sa] obtain D where bp: "block s p = Some D" by auto
  from u sa bp have "ref_count D = 1" by (simp add: owns_uniquely_def)
  with InvD(1) [OF i bp] have "handle_count s p = 1" by simp
  from sole_handle [OF this sa sb] ne show False by simp
qed

subsection \<open>The invariants of the payload\<close>

lemma payload_ok_iff:
  "payload_ok s = (\<forall>p D. block s p = Some D \<longrightarrow> Data_ok D)"
proof
  assume a: "payload_ok s"
  show "\<forall>p D. block s p = Some D \<longrightarrow> Data_ok D"
  proof (intro allI impI)
    fix p D assume b: "block s p = Some D"
    then have "p < length (heap s)" by (rule block_Some_less)
    with b have "Some D \<in> set (heap s)" by (auto simp: block_def in_set_conv_nth)
    with a show "Data_ok D" by (auto simp: payload_ok_def list_all_iff)
  qed
next
  assume r: "\<forall>p D. block s p = Some D \<longrightarrow> Data_ok D"
  show "payload_ok s"
    unfolding payload_ok_def list_all_iff
  proof
    fix b assume "b \<in> set (heap s)"
    then obtain p where "p < length (heap s)" "heap s ! p = b" by (auto simp: in_set_conv_nth)
    then have "block s p = b" by (simp add: block_def)
    with r show "case b of None \<Rightarrow> True | Some D \<Rightarrow> Data_ok D"
      by (cases b) auto
  qed
qed

lemma payload_handles [simp]: "payload_ok (s\<lparr>handles := hs\<rparr>) = payload_ok s"
  by (simp add: payload_ok_def)

lemma payload_trace [simp]: "payload_ok (s\<lparr>trace := t\<rparr>) = payload_ok s"
  by (simp add: payload_ok_def)

lemma payload_set_data [simp]: "payload_ok (set_data h d s) = payload_ok s"
  by (simp add: set_data_def)

lemma payload_register [simp]: "payload_ok (register_sink f s) = payload_ok s"
  by (simp add: payload_ok_def register_sink_def)

lemma payload_set_block:
  "payload_ok s \<Longrightarrow> Data_ok D \<Longrightarrow> payload_ok (set_block p D s)"
  by (auto simp: payload_ok_iff split: if_splits)

lemma payload_heap_None:
  "payload_ok s \<Longrightarrow> payload_ok (s\<lparr>heap := (heap s)[p := None]\<rparr>)"
  by (auto simp: payload_ok_iff block_heap_None split: if_splits)

lemma payload_heap_append:
  "payload_ok s \<Longrightarrow> Data_ok D \<Longrightarrow> payload_ok (s\<lparr>heap := heap s @ [Some D]\<rparr>)"
  by (simp add: payload_ok_def)

lemma Data_ok_ref_count [simp]: "Data_ok (D\<lparr>ref_count := n\<rparr>) = Data_ok D"
  by (simp add: Data_ok_def texts_in_arena_def severity_covers_def)

lemma Data_ok_no_notes: "Data_ok (D\<lparr>d_notes := []\<rparr>)"
  by (simp add: Data_ok_def texts_in_arena_def severity_covers_def max_severity_def
      sev_less_def DEFAULT_SEVERITY_def)

lemma Data_ok_fresh:
  "Data_ok \<lparr>ref_count = 1, d_notes = [], arena = A, d_level = 0, d_severity = DEFAULT_SEVERITY\<rparr>"
  by (simp add: Data_ok_def texts_in_arena_def severity_covers_def max_severity_def
      sev_less_def DEFAULT_SEVERITY_def)

lemma sev_val_max: "sev_val (sev_max a b) = max (sev_val a) (sev_val b)"
  by (auto simp: sev_max_def sev_less_def max_def)

lemma severity_covers_push:
  assumes "\<not> sev_less d (max_severity ns)"
  shows "\<not> sev_less (sev_max d v)
           (max_severity (\<lparr>a_severity = v, a_level = l, a_text = sp\<rparr> # ns))"
proof -
  let ?m = "sev_val (max_severity ns)"
  from assms have le: "?m \<le> sev_val d" by (simp add: sev_less_def not_less)
  have "max ?m (sev_val v) \<le> max (sev_val d) (sev_val v)"
    using le by (rule max.mono) simp
  moreover have "max_severity (\<lparr>a_severity = v, a_level = l, a_text = sp\<rparr> # ns)
      = sev_max (max_severity ns) v"
    by (simp add: max_severity_def)
  ultimately show ?thesis
    by (simp only: sev_less_def sev_val_max not_less)
qed

lemma payload_release:
  assumes p: "payload_ok s" and r: "release h s = Inr s'"
  shows "payload_ok s'"
proof (cases "slot_of s h")
  case Dead
  with r show ?thesis by (simp add: release_def)
next
  case (Live d)
  show ?thesis
  proof (cases d)
    case None
    with Live r p show ?thesis by (simp add: release_def)
  next
    case (Some q)
    with Live r obtain D where b: "block s q = Some D"
      by (cases "block s q") (auto simp: release_def)
    have h: "slot_of s h = Live (Some q)" using Live Some by simp
    have ok: "Data_ok D" using p b by (simp add: payload_ok_iff)
    show ?thesis
    proof (cases "ref_count D = 1")
      case True
      from r release_last [OF h b True] p show ?thesis
        using payload_heap_None [OF p, of q] by auto
    next
      case False
      from r release_shared [OF h b False] show ?thesis
        using payload_set_block [OF p, of "D\<lparr>ref_count := ref_count D - 1\<rparr>" q] ok by auto
    qed
  qed
qed

lemma payload_clear:
  assumes p: "payload_ok s" and c: "Errata_clear h s = Inr s'"
  shows "payload_ok s'"
proof (cases "slot_of s h")
  case Dead
  with c show ?thesis by (simp add: Errata_clear_def)
next
  case (Live d)
  show ?thesis
  proof (cases d)
    case None
    with Live c p show ?thesis by (simp add: Errata_clear_def)
  next
    case (Some q)
    with Live c obtain D where b: "block s q = Some D"
      by (cases "block s q") (auto simp: Errata_clear_def)
    have r: "release h (set_block q (D\<lparr>d_notes := []\<rparr>) s) = Inr s'"
      using c Live Some b by (simp add: Errata_clear_def)
    have "payload_ok (set_block q (D\<lparr>d_notes := []\<rparr>) s)"
      using p Data_ok_no_notes by (rule payload_set_block)
    then show ?thesis using r by (rule payload_release)
  qed
qed

lemma payload_writeable:
  assumes p: "payload_ok s" and w: "writeable_data h s = Inr (q, s1)"
  shows "payload_ok s1"
proof (cases "slot_of s h = Live None")
  case True
  with w have "s1 = set_data h (Some (length (heap s)))
      (s\<lparr>heap := heap s @ [Some \<lparr>ref_count = 1, d_notes = [], arena = new_arena (arena_size s),
                    d_level = 0, d_severity = DEFAULT_SEVERITY\<rparr>]\<rparr>)"
    by (auto simp: writeable_data_def data_def Let_def)
  then show ?thesis using payload_heap_append [OF p Data_ok_fresh] by simp
next
  case False
  with w have "s1 = s"
    by (auto simp: writeable_data_def split: slot.splits option.splits if_splits)
  with p show ?thesis by simp
qed

lemma payload_note:
  assumes p: "payload_ok s" and n: "Errata_note h sev t s = Inr s'"
  shows "payload_ok s'"
proof -
  from n obtain q s1 where w: "writeable_data h s = Inr (q, s1)"
    by (auto simp: Errata_note_def split: sum.splits)
  from writeable_dataD [OF w] obtain D where b: "block s1 q = Some D" by auto
  have p1: "payload_ok s1" using p w by (rule payload_writeable)
  then have ok: "Data_ok D" using b by (simp add: payload_ok_iff)
  let ?D' = "push_note sev (fst (Data_localize t D)) (snd (Data_localize t D))"
  have s': "s' = set_block q ?D' s1"
    using n Errata_note_writeable [OF w b] by simp
  have ta: "texts_in_arena ?D'"
    using note_push(2) ok by (simp add: Data_ok_def)
  have "severity_covers ?D'"
    using ok severity_covers_push [of "d_severity D" "d_notes D" sev]
    by (simp add: Data_ok_def severity_covers_def push_note_def Data_localize_def
        split: prod.splits)
  then show ?thesis
    unfolding s' using ta payload_set_block [OF p1] by (simp add: Data_ok_def)
qed

lemma payload_note_v:
  assumes p: "payload_ok s" and n: "note_v render h sev fmt args s = Inr s'"
  shows "payload_ok s'"
proof -
  from n obtain q s1 where w: "writeable_data h s = Inr (q, s1)"
    by (auto simp: note_v_def split: sum.splits)
  from writeable_dataD [OF w] obtain D where b: "block s1 q = Some D" by auto
  have p1: "payload_ok s1" using p w by (rule payload_writeable)
  then have ok: "Data_ok D" using b by (simp add: payload_ok_iff)
  obtain sp A' where r: "spec_render_into (render fmt args) (arena D) = (sp, A')"
    by (cases "spec_render_into (render fmt args) (arena D)")
  let ?D' = "push_note sev sp (D\<lparr>arena := A'\<rparr>)"
  have s': "s' = set_block q ?D' s1"
    using n note_v_writeable [OF w b, of render sev fmt args] r by simp
  have old: "span_ok A' (a_text x)" if "x \<in> set (d_notes D)" for x
  proof -
    from ok that have "span_ok (arena D) (a_text x)"
      by (simp add: Data_ok_def texts_in_arena_def list_all_iff)
    with spec_render_frame [OF r] show ?thesis by blast
  qed
  have ta: "texts_in_arena ?D'"
    using old spec_render_ok(1) [OF r]
    by (simp add: texts_in_arena_def push_note_def list_all_iff)
  have "severity_covers ?D'"
    using ok severity_covers_push [of "d_severity D" "d_notes D" sev]
    by (simp add: Data_ok_def severity_covers_def push_note_def)
  then show ?thesis
    unfolding s' using ta payload_set_block [OF p1] by (simp add: Data_ok_def)
qed

lemma payload_note_each:
  "payload_ok s \<Longrightarrow> note_each h ms s = Inr s' \<Longrightarrow> payload_ok s'"
proof (induction ms arbitrary: s)
  case Nil
  then show ?case by simp
next
  case (Cons m ms)
  from Cons.prems(2) obtain s1 where n: "Errata_note h (fst m) (snd m) s = Inr s1"
    and r: "note_each h ms s1 = Inr s'"
    by (auto split: sum.splits)
  have "payload_ok s1" using Cons.prems(1) n by (rule payload_note)
  then show ?case using r by (rule Cons.IH)
qed

lemma payload_note_copy:
  assumes p: "payload_ok s" and n: "Errata_note_copy a b s = Inr s'"
  shows "payload_ok s'"
proof -
  from n have "s' = s \<or> (\<exists>ms. note_each a ms s = Inr s')"
    by (auto simp: Errata_note_copy_def split: slot.splits sum.splits option.splits)
  then show ?thesis using p payload_note_each by blast
qed

lemma payload_step:
  assumes p: "payload_ok s" and st: "step c s = Inr s'"
  shows "payload_ok s'"
proof (cases c)
  case Ctor
  with st p show ?thesis by (auto simp: Errata_ctor_def)
next
  case (Copy b)
  show ?thesis
  proof (cases "slot_of s b")
    case Dead
    with st Copy show ?thesis by (simp add: Errata_copy_def)
  next
    case (Live d)
    show ?thesis
    proof (cases d)
      case None
      with st Copy Live p show ?thesis by (auto simp: Errata_copy_null)
    next
      case (Some q)
      with st Copy Live obtain D where b: "block s q = Some D"
        by (cases "block s q") (auto simp: Errata_copy_def Let_def)
      have "Data_ok D" using p b by (simp add: payload_ok_iff)
      then have "payload_ok (set_block q (D\<lparr>ref_count := ref_count D + 1\<rparr>)
            (s\<lparr>handles := handles s @ [Live (Some q)]\<rparr>))"
        using p by (intro payload_set_block) simp_all
      then show ?thesis
        using st Copy Live Some Errata_copy_live [of s b q D] b by simp
    qed
  qed
next
  case (Move b)
  show ?thesis
  proof (cases "slot_of s b")
    case Dead
    with st Move show ?thesis by (simp add: Errata_move_def)
  next
    case (Live d)
    with st Move p Errata_move_live [OF Live] show ?thesis by auto
  qed
next
  case (Move_assign a b)
  show ?thesis
  proof (cases "a = b")
    case True
    with st Move_assign p show ?thesis
      by (simp add: Errata_move_assign_def split: slot.splits)
  next
    case False
    with st Move_assign obtain s1 where r: "release a s = Inr s1"
      and sw: "swap_data a b s1 = Inr s'"
      by (auto simp: Errata_move_assign_def split: sum.splits)
    have "payload_ok s1" using p r by (rule payload_release)
    then show ?thesis
      using sw by (auto simp: swap_data_def split: slot.splits)
  qed
next
  case (Dtor a)
  with st obtain s1 where r: "release a s = Inr s1"
    and s': "s' = s1\<lparr>handles := (handles s1)[a := Dead]\<rparr>"
    by (auto simp: Errata_dtor_def split: sum.splits)
  have "payload_ok s1" using p r by (rule payload_release)
  then show ?thesis by (simp add: s')
next
  case (Clear a)
  with st p show ?thesis by (auto intro: payload_clear)
next
  case (Note a sev t)
  with st p show ?thesis by (auto intro: payload_note)
next
  case (Note_v a sev t)
  with st p show ?thesis by (auto intro: payload_note_v)
next
  case (Note_copy a b)
  with st p show ?thesis by (auto intro: payload_note_copy)
next
  case (Note_move a b)
  with st obtain s1 where c: "Errata_note_copy a b s = Inr s1"
    and cl: "Errata_clear b s1 = Inr s'"
    by (auto simp: Errata_note_move_def split: sum.splits)
  have "payload_ok s1" using p c by (rule payload_note_copy)
  then show ?thesis using cl by (rule payload_clear)
next
  case (Register f)
  with st p show ?thesis by auto
qed

lemma payload_run: "payload_ok s \<Longrightarrow> run cs s = Inr s' \<Longrightarrow> payload_ok s'"
proof (induction cs arbitrary: s)
  case Nil
  then show ?case by simp
next
  case (Cons c cs)
  from Cons.prems(2) obtain s1 where st: "step c s = Inr s1" and r: "run cs s1 = Inr s'"
    by (auto split: sum.splits)
  have "payload_ok s1" using Cons.prems(1) st by (rule payload_step)
  then show ?case using r by (rule Cons.IH)
qed

text \<open>
  Every store that a program reaches from the empty store satisfies the invariants of the
  payload, and the invariant of the counters when the program has at most \<^verbatim>\<open>INT_MAX\<close>
  operations.
\<close>

lemma reachable_invariants:
  assumes "run cs (empty_store n) = Inr s"
  shows "payload_ok s"
    and "block s p = Some D \<Longrightarrow> texts_in_arena D \<and> severity_covers D"
proof -
  have "payload_ok (empty_store n)" by (simp add: payload_ok_def empty_store_def)
  then show p: "payload_ok s" using assms by (rule payload_run)
  show "block s p = Some D \<Longrightarrow> texts_in_arena D \<and> severity_covers D"
    using p by (auto simp: payload_ok_iff Data_ok_def)
qed

lemma reachable_counts:
  assumes "run cs (empty_store n) = Inr s" and "length cs \<le> 2147483647"
  shows "Inv s"
proof -
  have "length (handles (empty_store n)) + length cs \<le> 2147483647"
    using assms(2) by (simp add: empty_store_def)
  with Inv_empty_store show ?thesis using assms(1) by (rule Inv_run)
qed

lemma reachable_owner:
  assumes r: "run cs (empty_store n) = Inr s" and ne: "a \<noteq> b"
    and a: "slot_of s a = Live (Some p)" and b: "block s p = Some D" and u: "ref_count D = 1"
  shows "owns_uniquely s a" and "length cs \<le> 2147483647 \<Longrightarrow> \<not> aliased s a b"
proof -
  show o: "owns_uniquely s a"
    using a b u reachable_invariants(2) [OF r b] by (simp add: owns_uniquely_def)
  show "\<not> aliased s a b" if "length cs \<le> 2147483647"
    using reachable_counts [OF r that] ne o by (rule sole_owner_not_aliased)
qed

subsection \<open>The example stores\<close>

text \<open>The example stores are stores that programs reach from the empty store.\<close>

lemma store_bad_reachable:
  "run [Register 7, Register 9, Ctor, Note 0 ERROR ''bad''] (empty_store 4) = Inr store_bad"
  by code_simp

lemma store_shared_reachable:
  "run [Register 7, Register 9, Ctor, Note 0 ERROR ''bad'', Copy 0] (empty_store 4)
     = Inr store_shared"
  by code_simp

lemma store_pair_reachable:
  "run [Register 7, Register 9, Ctor, Note 0 ERROR ''bad'', Ctor, Note_v 1 INFO ''ok'']
     (empty_store 4) = Inr store_pair"
  by code_simp

text \<open>
  The expectations of the test case: one note with the text given after \<^verbatim>\<open>Noteworthy\<close>, two
  notes after the cycle, the newer one first, and \<^verbatim>\<open>notes\<close> the only owner of the block.
\<close>

lemma test_Errata_copy_first:
  "map_sum id (\<lambda>s. map_sum id (\<lambda>d. (count d, texts d)) (pointee s 0))
      (run (take 2 test_Errata_copy) (empty_store 64))
     = Inr (Inr (1, [''Evil Dave Rulz.'']))"
  by code_simp

lemma test_Errata_copy_second:
  "map_sum id (\<lambda>s. map_sum id (\<lambda>d. (count d, texts d, map_option ref_count d)) (pointee s 0))
      (run test_Errata_copy (empty_store 64))
     = Inr (Inr (2, [''Note well, young one!'', ''Evil Dave Rulz.''], Some 1))"
  by code_simp

end
